theory Spec2Isabelle
  imports Complex_Main "HOL-Library.Word" "HOL-Library.Multiset"
begin

unbundle bit_operations_syntax

section \<open>Data model of package mempool\<close>

text \<open>
  A \<open>chainhash.Hash\<close> is an opaque 32-byte identifier; only equality is used by the
  mempool, so it is a natural number here. A \<open>wire.OutPoint\<close> is the pair of a
  transaction hash and an output index. A \<open>time.Time\<close> is the number of nanoseconds
  since the Unix epoch, a \<open>time.Duration\<close> a number of nanoseconds.
\<close>

type_synonym hash = nat
type_synonym outPoint = "hash \<times> nat"
type_synonym time = int

record txOut =
  Value :: int
  PkScript :: "8 word list"

text \<open>
  \<open>bchutil.Tx\<close>: the mempool reads the cached hash (\<open>tx.Hash()\<close>), the previous
  outpoints of the inputs (\<open>tx.MsgTx().TxIn\<close>), the outputs (\<open>tx.MsgTx().TxOut\<close>)
  and the serialized size (\<open>tx.MsgTx().SerializeSize()\<close>). Hash and size are
  computed from the wire encoding, which is outside this package, so both are fields.
\<close>

record tx =
  txHash :: hash
  txIn :: "outPoint list"
  txOut :: "txOut list"
  serializeSize :: int

record 'f txDesc =
  Tx :: tx
  Added :: time
  Height :: "32 word"
  Fee :: int
  FeePerKB :: int
  StartingPriority :: 'f

record orphanTx =
  otx :: tx
  tag :: nat
  expiration :: time

text \<open>
  \<open>TxPool\<close> without its mutex and its configuration (the configuration never changes
  after \<open>New\<close> and is passed separately). Go maps are partial functions; the type
  \<open>'f\<close> stands for \<open>float64\<close>.
\<close>

record 'f txPool =
  lastUpdated :: int
  pool :: "hash \<rightharpoonup> 'f txDesc"
  orphans :: "hash \<rightharpoonup> orphanTx"
  orphansByPrev :: "outPoint \<rightharpoonup> (hash \<rightharpoonup> tx)"
  outpoints :: "outPoint \<rightharpoonup> tx"
  pennyTotal :: 'f
  lastPennyUnix :: int
  nextExpireScan :: time

record 'f policy =
  MaxTxVersion :: int
  DisableRelayPriority :: bool
  AcceptNonStd :: bool
  FreeTxRelayLimit :: 'f
  MaxOrphanTxs :: int
  MaxOrphanTxSize :: int
  LimitSigChecks :: bool
  MinRelayTxFee :: int

text \<open>The fields of \<open>chaincfg.Params\<close> that the mempool reads.\<close>

record chainParams =
  MagneticAnonomalyForkHeight :: "32 word"
  Upgrade9ForkHeight :: "32 word"
  Upgrade11ActivationTime :: "64 word"

record 'f config =
  Policy :: "'f policy"
  ChainParams :: chainParams

definition DefaultBlockPrioritySize :: int where
  "DefaultBlockPrioritySize = 1600000"

definition orphanTTL :: time where
  "orphanTTL = 60 * 1000000000 * 15"

definition orphanExpireScanInterval :: time where
  "orphanExpireScanInterval = 60 * 1000000000 * 5"

text \<open>\<open>time.Time.Unix\<close>: whole seconds since the epoch.\<close>

definition unixSeconds :: "time \<Rightarrow> int" where
  "unixSeconds t = t div 1000000000"

section \<open>Errors\<close>

datatype rejectCode =
  RejectDuplicate | RejectNonstandard | RejectInsufficientFee | RejectInvalid
  | RejectOther nat

text \<open>
  An error returned by a collaborator outside the package is either a
  \<open>blockchain.RuleError\<close> or some other error. The mempool returns a
  \<open>mempool.RuleError\<close> wrapping a \<open>TxRuleError\<close> or a \<open>blockchain.RuleError\<close>, or
  the other error unchanged.
\<close>

datatype extError = BlockchainRuleError nat | OtherError nat

datatype error = TxRuleError rejectCode | ChainRuleError nat | RawError nat

definition txRuleError :: "rejectCode \<Rightarrow> error" where
  "txRuleError c = TxRuleError c"

text \<open>The repeated \<open>if cerr, ok := err.(blockchain.RuleError); ok { ... }\<close>.\<close>

fun wrapExtError :: "extError \<Rightarrow> error" where
  "wrapExtError (BlockchainRuleError c) = ChainRuleError c"
| "wrapExtError (OtherError c) = RawError c"

text \<open>
  \<open>extractRejectCode\<close> followed by the fall-back to \<open>RejectNonstandard\<close>: the
  standardness checks return \<open>None\<close> for no error, \<open>Some None\<close> for an error without
  a reject code and \<open>Some (Some c)\<close> for an error carrying the code \<open>c\<close>.
\<close>

fun standardError :: "rejectCode option \<Rightarrow> error" where
  "standardError None = txRuleError RejectNonstandard"
| "standardError (Some c) = txRuleError c"

section \<open>Collaborators outside the package\<close>

text \<open>
  Everything the mempool calls in packages \<open>blockchain\<close>, \<open>txscript\<close>, \<open>mining\<close>,
  \<open>math\<close> and \<open>time\<close>, and the callbacks of \<open>Config\<close>, is a field of the environment
  of a call. \<open>'v\<close> is \<open>blockchain.UtxoViewpoint\<close>, \<open>'e\<close> is \<open>blockchain.UtxoEntry\<close>,
  \<open>'l\<close> is \<open>blockchain.SequenceLock\<close>, \<open>'f\<close> is \<open>float64\<close>. \<open>Entries\<close> lists the
  entries of a view in the order in which a \<open>range\<close> over the map visits them; a nil
  entry is \<open>None\<close>. The \<open>float64\<close> operations are the fields \<open>f_mul\<close> (product),
  \<open>f_add\<close> (sum), \<open>f_pow\<close> (\<open>math.Pow\<close>), \<open>f_ge\<close> and \<open>f_le\<close> (comparisons),
  \<open>f_of_int\<close> (conversion of an integer) and \<open>f_of_rat\<close>, the \<open>float64\<close> value of
  a constant expression, which Go evaluates exactly before it converts the result.
\<close>

record ('v, 'e, 'l, 'f) env =
  MedianTimePast :: "64 word"
  BestHeight :: "32 word"
  timeNow :: time
  CheckTransactionSanity :: "tx \<Rightarrow> bool \<Rightarrow> bool \<Rightarrow> 32 word \<Rightarrow> extError option"
  IsCoinBase :: "tx \<Rightarrow> bool"
  checkTransactionStandard ::
    "tx \<Rightarrow> 32 word \<Rightarrow> 64 word \<Rightarrow> int \<Rightarrow> int \<Rightarrow> bool \<Rightarrow> rejectCode option option"
  FetchUtxoView :: "tx \<Rightarrow> extError + 'v"
  LookupEntry :: "'v \<Rightarrow> outPoint \<Rightarrow> 'e option"
  IsSpent :: "'e \<Rightarrow> bool"
  AddTxOut :: "'v \<Rightarrow> tx \<Rightarrow> nat \<Rightarrow> 32 word \<Rightarrow> 'v"
  RemoveEntry :: "'v \<Rightarrow> outPoint \<Rightarrow> 'v"
  Entries :: "'v \<Rightarrow> (outPoint \<times> 'e option) list"
  UnminedHeight :: "32 word"
  CalcSequenceLock :: "tx \<Rightarrow> 'v \<Rightarrow> extError + 'l"
  SequenceLockActive :: "'l \<Rightarrow> 32 word \<Rightarrow> 64 word \<Rightarrow> bool"
  CheckTransactionInputs :: "tx \<Rightarrow> 32 word \<Rightarrow> 'v \<Rightarrow> extError + int"
  checkInputsStandard :: "tx \<Rightarrow> 'v \<Rightarrow> 32 word \<Rightarrow> rejectCode option option"
  CalcPriority :: "tx \<Rightarrow> 'v \<Rightarrow> 32 word \<Rightarrow> 'f"
  MinHighPriority :: 'f
  ValidateTransactionScripts :: "tx \<Rightarrow> 'v \<Rightarrow> 32 word \<Rightarrow> 32 word \<Rightarrow> extError option"
  StandardVerifyFlags :: "32 word"
  ScriptVerifyInputSigChecks :: "32 word"
  ScriptAllowCashTokens :: "32 word"
  ScriptAllowMay2025 :: "32 word"
  ScriptAllowMay2025StandardOnly :: "32 word"
  f_mul :: "'f \<Rightarrow> 'f \<Rightarrow> 'f"
  f_add :: "'f \<Rightarrow> 'f \<Rightarrow> 'f"
  f_pow :: "'f \<Rightarrow> 'f \<Rightarrow> 'f"
  f_ge :: "'f \<Rightarrow> 'f \<Rightarrow> bool"
  f_le :: "'f \<Rightarrow> 'f \<Rightarrow> bool"
  f_of_int :: "int \<Rightarrow> 'f"
  f_of_rat :: "rat \<Rightarrow> 'f"

section \<open>Loops\<close>

text \<open>
  A loop whose body may fail to return (\<open>None\<close>) stops there. The recursive removals
  below take a bound on the depth of the recursion (fuel) and return \<open>None\<close> when it
  is used up.
\<close>

fun forEachM :: "('a \<Rightarrow> 's \<Rightarrow> 's option) \<Rightarrow> 'a list \<Rightarrow> 's \<Rightarrow> 's option" where
  "forEachM f [] s = Some s"
| "forEachM f (x # xs) s = (case f x s of None \<Rightarrow> None | Some s' \<Rightarrow> forEachM f xs s')"

text \<open>
  Go leaves the order of a \<open>range\<close> over a map open. Every loop over a map keyed by
  transaction hashes takes the order as the list \<open>ord\<close> of hashes: the loop visits the
  hashes of \<open>ord\<close> in turn and skips a hash that is not a key of the map when its turn
  comes (Go does not produce an entry deleted before it is reached; none of these loops
  inserts).
\<close>

section \<open>The orphan pool\<close>

definition lookupPrev :: "'f txPool \<Rightarrow> outPoint \<Rightarrow> hash \<Rightarrow> tx option" where
  "lookupPrev s p h = (case orphansByPrev s p of None \<Rightarrow> None | Some m \<Rightarrow> m h)"

text \<open>Body of the first loop of \<open>removeOrphan\<close>.\<close>

definition unlinkPrev :: "hash \<Rightarrow> outPoint \<Rightarrow> 'f txPool \<Rightarrow> 'f txPool" where
  "unlinkPrev h p s =
     (case orphansByPrev s p of
        None \<Rightarrow> s
      | Some m \<Rightarrow>
          (let m' = m(h := None) in
           if dom m' = {} then s\<lparr>orphansByPrev := (orphansByPrev s)(p := None)\<rparr>
           else s\<lparr>orphansByPrev := (orphansByPrev s)(p \<mapsto> m')\<rparr>))"

text \<open>
  A \<open>range\<close> over the orphans registered for the outpoint \<open>p\<close>, in the order
  \<open>ord\<close>; the body may remove entries of the inner map.
\<close>

definition rangePrev ::
  "hash list \<Rightarrow> outPoint \<Rightarrow> (tx \<Rightarrow> 'f txPool \<Rightarrow> 'f txPool option) \<Rightarrow> 'f txPool
   \<Rightarrow> 'f txPool option" where
  "rangePrev ord p body =
     forEachM (\<lambda>h s. case lookupPrev s p h of None \<Rightarrow> Some s | Some orphan \<Rightarrow> body orphan s) ord"

text \<open>The loop of \<open>removeOrphan\<close> over the outputs of the transaction.\<close>

definition removeRedeemersOf ::
  "hash list \<Rightarrow> tx \<Rightarrow> (tx \<Rightarrow> 'f txPool \<Rightarrow> 'f txPool option) \<Rightarrow> 'f txPool
   \<Rightarrow> 'f txPool option" where
  "removeRedeemersOf ord t body =
     forEachM (\<lambda>txOutIdx. rangePrev ord (txHash t, txOutIdx) body) [0 ..< length (txOut t)]"

fun removeOrphan :: "nat \<Rightarrow> hash list \<Rightarrow> tx \<Rightarrow> bool \<Rightarrow> 'f txPool \<Rightarrow> 'f txPool option" where
  "removeOrphan 0 ord t removeRedeemers s = None"
| "removeOrphan (Suc n) ord t removeRedeemers s =
     (case orphans s (txHash t) of
        None \<Rightarrow> Some s
      | Some ot \<Rightarrow>
          (case (if removeRedeemers
                 then removeRedeemersOf ord t (\<lambda>orphan s'. removeOrphan n ord orphan True s')
                        (fold (unlinkPrev (txHash t)) (txIn (otx ot)) s)
                 else Some (fold (unlinkPrev (txHash t)) (txIn (otx ot)) s)) of
             None \<Rightarrow> None
           | Some s2 \<Rightarrow> Some (s2\<lparr>orphans := (orphans s2)(txHash t := None)\<rparr>)))"

definition RemoveOrphan :: "nat \<Rightarrow> hash list \<Rightarrow> tx \<Rightarrow> 'f txPool \<Rightarrow> 'f txPool option" where
  "RemoveOrphan fuel ord t s = removeOrphan fuel ord t False s"

definition RemoveOrphansByTag ::
  "nat \<Rightarrow> hash list \<Rightarrow> nat \<Rightarrow> 'f txPool \<Rightarrow> (nat \<times> 'f txPool) option" where
  "RemoveOrphansByTag fuel ord tg s =
     forEachM
       (\<lambda>h (numEvicted, s').
          case orphans s' h of
            None \<Rightarrow> Some (numEvicted, s')
          | Some ot \<Rightarrow>
              if tag ot = tg
              then (case removeOrphan fuel ord (otx ot) True s' of
                      None \<Rightarrow> None
                    | Some s'' \<Rightarrow> Some (numEvicted + 1, s''))
              else Some (numEvicted, s'))
       ord (0, s)"

text \<open>The expiry scan of \<open>limitNumOrphans\<close>: the loop over \<open>mp.orphans\<close>.\<close>

definition expireOrphans :: "nat \<Rightarrow> hash list \<Rightarrow> time \<Rightarrow> 'f txPool \<Rightarrow> 'f txPool option" where
  "expireOrphans fuel ord now s =
     forEachM
       (\<lambda>h s'. case orphans s' h of
                  None \<Rightarrow> Some s'
                | Some ot \<Rightarrow>
                    if now > expiration ot then removeOrphan fuel ord (otx ot) True s'
                    else Some s')
       ord s"

text \<open>The eviction loop of \<open>limitNumOrphans\<close>: it leaves after the first entry.\<close>

fun evictOne :: "nat \<Rightarrow> hash list \<Rightarrow> hash list \<Rightarrow> 'f txPool \<Rightarrow> 'f txPool option" where
  "evictOne fuel ord [] s = Some s"
| "evictOne fuel ord (h # hs) s =
     (case orphans s h of
        None \<Rightarrow> evictOne fuel ord hs s
      | Some ot \<Rightarrow> removeOrphan fuel ord (otx ot) False s)"

text \<open>The first block of \<open>limitNumOrphans\<close>: the scan when it is due.\<close>

definition expireScan :: "nat \<Rightarrow> hash list \<Rightarrow> time \<Rightarrow> 'f txPool \<Rightarrow> 'f txPool option" where
  "expireScan fuel ord now s =
     (if now > nextExpireScan s
      then (case expireOrphans fuel ord now s of
              None \<Rightarrow> None
            | Some s' \<Rightarrow> Some (s'\<lparr>nextExpireScan := now + orphanExpireScanInterval\<rparr>))
      else Some s)"

definition limitNumOrphans ::
  "nat \<Rightarrow> hash list \<Rightarrow> 'f config \<Rightarrow> time \<Rightarrow> 'f txPool \<Rightarrow> 'f txPool option" where
  "limitNumOrphans fuel ord cfg now s =
     (case expireScan fuel ord now s of
        None \<Rightarrow> None
      | Some s1 \<Rightarrow>
          if int (card (dom (orphans s1))) + 1 \<le> MaxOrphanTxs (Policy cfg) then Some s1
          else evictOne fuel ord ord s1)"

text \<open>Body of the loop of \<open>addOrphan\<close> over the inputs.\<close>

definition linkPrev :: "tx \<Rightarrow> outPoint \<Rightarrow> 'f txPool \<Rightarrow> 'f txPool" where
  "linkPrev t p s =
     s\<lparr>orphansByPrev :=
         (orphansByPrev s)
           (p \<mapsto> (case orphansByPrev s p of None \<Rightarrow> Map.empty | Some m \<Rightarrow> m)
                  (txHash t \<mapsto> t))\<rparr>"

text \<open>
  \<open>addOrphan\<close> reads the clock twice: \<open>now\<close> is the reading inside
  \<open>limitNumOrphans\<close>, \<open>now'\<close> the one that stamps the new orphan.
\<close>

definition addOrphan ::
  "nat \<Rightarrow> hash list \<Rightarrow> 'f config \<Rightarrow> time \<Rightarrow> time \<Rightarrow> tx \<Rightarrow> nat \<Rightarrow> 'f txPool
   \<Rightarrow> 'f txPool option" where
  "addOrphan fuel ord cfg now now' t tg s =
     (if MaxOrphanTxs (Policy cfg) \<le> 0 then Some s
      else (case limitNumOrphans fuel ord cfg now s of
              None \<Rightarrow> None
            | Some s1 \<Rightarrow>
                Some (fold (linkPrev t) (txIn t)
                        (s1\<lparr>orphans := (orphans s1)
                               (txHash t \<mapsto>
                                  \<lparr>otx = t, tag = tg, expiration = now' + orphanTTL\<rparr>)\<rparr>))))"

definition maybeAddOrphan ::
  "nat \<Rightarrow> hash list \<Rightarrow> 'f config \<Rightarrow> time \<Rightarrow> time \<Rightarrow> tx \<Rightarrow> nat \<Rightarrow> 'f txPool
   \<Rightarrow> (error option \<times> 'f txPool) option" where
  "maybeAddOrphan fuel ord cfg now now' t tg s =
     (if serializeSize t > MaxOrphanTxSize (Policy cfg)
      then Some (Some (txRuleError RejectNonstandard), s)
      else (case addOrphan fuel ord cfg now now' t tg s of
              None \<Rightarrow> None
            | Some s' \<Rightarrow> Some (None, s')))"

definition removeOrphanDoubleSpends ::
  "nat \<Rightarrow> hash list \<Rightarrow> tx \<Rightarrow> 'f txPool \<Rightarrow> 'f txPool option" where
  "removeOrphanDoubleSpends fuel ord t s =
     forEachM (\<lambda>p. rangePrev ord p (\<lambda>orphan s'. removeOrphan fuel ord orphan True s'))
       (txIn t) s"

section \<open>The main pool\<close>

text \<open>Go's integer division truncates towards zero.\<close>

definition go_quot :: "int \<Rightarrow> int \<Rightarrow> int" where
  "go_quot a b = sgn a * sgn b * (\<bar>a\<bar> div \<bar>b\<bar>)"

text \<open>
  \<open>removeTransaction\<close>; \<open>now\<close> is the clock reading stored in \<open>lastUpdated\<close>. The
  call of the address index is outside the pool state.
\<close>

fun removeTransaction :: "nat \<Rightarrow> time \<Rightarrow> tx \<Rightarrow> bool \<Rightarrow> 'f txPool \<Rightarrow> 'f txPool option" where
  "removeTransaction 0 now t removeRedeemers s = None"
| "removeTransaction (Suc n) now t removeRedeemers s =
     (case (if removeRedeemers
            then forEachM
                   (\<lambda>i s'. case outpoints s' (txHash t, i) of
                              None \<Rightarrow> Some s'
                            | Some txRedeemer \<Rightarrow> removeTransaction n now txRedeemer True s')
                   [0 ..< length (txOut t)] s
            else Some s) of
        None \<Rightarrow> None
      | Some s1 \<Rightarrow>
          (case pool s1 (txHash t) of
             None \<Rightarrow> Some s1
           | Some txD \<Rightarrow>
               Some (s1\<lparr>outpoints := fold (\<lambda>p m. m(p := None)) (txIn (Tx txD)) (outpoints s1),
                         pool := (pool s1)(txHash t := None),
                         lastUpdated := unixSeconds now\<rparr>)))"

definition RemoveTransaction ::
  "nat \<Rightarrow> time \<Rightarrow> tx \<Rightarrow> bool \<Rightarrow> 'f txPool \<Rightarrow> 'f txPool option" where
  "RemoveTransaction fuel now t removeRedeemers s = removeTransaction fuel now t removeRedeemers s"

definition RemoveDoubleSpends :: "nat \<Rightarrow> time \<Rightarrow> tx \<Rightarrow> 'f txPool \<Rightarrow> 'f txPool option" where
  "RemoveDoubleSpends fuel now t s =
     forEachM
       (\<lambda>p s'. case outpoints s' p of
                  None \<Rightarrow> Some s'
                | Some txRedeemer \<Rightarrow>
                    if txHash txRedeemer \<noteq> txHash t
                    then removeTransaction fuel now txRedeemer True s'
                    else Some s')
       (txIn t) s"

text \<open>
  \<open>addTransaction\<close>. The divisor of \<open>FeePerKB\<close> is the serialized size, which is
  positive for every transaction (version, counts and lock time are always encoded).
  The address index and the fee estimator are outside the pool state.
\<close>

definition addTransaction ::
  "('v, 'e, 'l, 'f) env \<Rightarrow> 'v \<Rightarrow> tx \<Rightarrow> 32 word \<Rightarrow> int \<Rightarrow> 'f txPool
   \<Rightarrow> 'f txDesc \<times> 'f txPool" where
  "addTransaction E utxoView t height fee s =
     (let txD = \<lparr>Tx = t, Added = timeNow E, Height = height, Fee = fee,
                 FeePerKB = go_quot (fee * 1000) (serializeSize t),
                 StartingPriority = CalcPriority E t utxoView height\<rparr>
      in (txD,
          s\<lparr>pool := (pool s)(txHash t \<mapsto> txD),
            outpoints := fold (\<lambda>p m. m(p \<mapsto> t)) (txIn t) (outpoints s),
            lastUpdated := unixSeconds (timeNow E)\<rparr>))"

fun checkPoolDoubleSpendLoop :: "'f txPool \<Rightarrow> outPoint list \<Rightarrow> error option" where
  "checkPoolDoubleSpendLoop s [] = None"
| "checkPoolDoubleSpendLoop s (p # ps) =
     (case outpoints s p of
        Some txR \<Rightarrow> Some (txRuleError RejectDuplicate)
      | None \<Rightarrow> checkPoolDoubleSpendLoop s ps)"

definition checkPoolDoubleSpend :: "'f txPool \<Rightarrow> tx \<Rightarrow> error option" where
  "checkPoolDoubleSpend s t = checkPoolDoubleSpendLoop s (txIn t)"

definition fetchInputUtxos ::
  "('v, 'e, 'l, 'f) env \<Rightarrow> 'f txPool \<Rightarrow> tx \<Rightarrow> extError + 'v" where
  "fetchInputUtxos E s t =
     (case FetchUtxoView E t of
        Inl err \<Rightarrow> Inl err
      | Inr utxoView \<Rightarrow>
          Inr (fold
                 (\<lambda>prevOut v.
                    if (case LookupEntry E v prevOut of
                          None \<Rightarrow> False | Some entry \<Rightarrow> \<not> IsSpent E entry)
                    then v
                    else (case pool s (fst prevOut) of
                            None \<Rightarrow> v
                          | Some poolTxDesc \<Rightarrow>
                              AddTxOut E v (Tx poolTxDesc) (snd prevOut) (UnminedHeight E)))
                 (txIn t) utxoView))"

section \<open>Acceptance\<close>

text \<open>
  Modelled from the spec: \<open>calcMinRequiredTxRelayFee\<close> is defined in a file of the
  package that is not among the sources; the specification gives
  \<open>min_fee = max(1, size * min_relay_fee_per_kb / 1000)\<close>.
\<close>

definition calcMinRequiredTxRelayFee :: "int \<Rightarrow> int \<Rightarrow> int" where
  "calcMinRequiredTxRelayFee serializedSize minRelayTxFee =
     max 1 (go_quot (serializedSize * minRelayTxFee) 1000)"

definition nextBlockHeight :: "('v, 'e, 'l, 'f) env \<Rightarrow> 32 word" where
  "nextBlockHeight E = BestHeight E + 1"

definition magneticAnomalyActive :: "'f config \<Rightarrow> ('v, 'e, 'l, 'f) env \<Rightarrow> bool" where
  "magneticAnomalyActive cfg E =
     (if MagneticAnonomalyForkHeight (ChainParams cfg) <s nextBlockHeight E then True else False)"

definition upgrade9Active :: "'f config \<Rightarrow> ('v, 'e, 'l, 'f) env \<Rightarrow> bool" where
  "upgrade9Active cfg E =
     (if Upgrade9ForkHeight (ChainParams cfg) <s nextBlockHeight E then True else False)"

text \<open>
  \<open>medianTimePast.Unix() >= int64(Upgrade11ActivationTime)\<close>: the conversion of the
  \<open>uint64\<close> keeps the 64 bits, and the comparison is signed.
\<close>

definition upgrade11Active :: "'f config \<Rightarrow> ('v, 'e, 'l, 'f) env \<Rightarrow> bool" where
  "upgrade11Active cfg E = (Upgrade11ActivationTime (ChainParams cfg) \<le>s MedianTimePast E)"

definition scriptFlags :: "'f config \<Rightarrow> ('v, 'e, 'l, 'f) env \<Rightarrow> 32 word" where
  "scriptFlags cfg E =
     (let flags0 = StandardVerifyFlags E;
          flags1 = (if \<not> LimitSigChecks (Policy cfg)
                    then flags0 XOR ScriptVerifyInputSigChecks E else flags0);
          flags2 = (if upgrade9Active cfg E then flags1 OR ScriptAllowCashTokens E else flags1)
      in if upgrade11Active cfg E
         then (let flags3 = flags2 OR ScriptAllowMay2025 E
               in if \<not> AcceptNonStd (Policy cfg)
                  then flags3 OR ScriptAllowMay2025StandardOnly E else flags3)
         else flags2)"

text \<open>
  The loop over the outputs of the transaction: an unspent entry for one of its own
  outputs means the transaction is already mined; other entries are dropped.
\<close>

fun checkOwnOutputs ::
  "('v, 'e, 'l, 'f) env \<Rightarrow> hash \<Rightarrow> nat list \<Rightarrow> 'v \<Rightarrow> error + 'v" where
  "checkOwnOutputs E h [] v = Inr v"
| "checkOwnOutputs E h (txOutIdx # rest) v =
     (if (case LookupEntry E v (h, txOutIdx) of
            None \<Rightarrow> False | Some entry \<Rightarrow> \<not> IsSpent E entry)
      then Inl (txRuleError RejectDuplicate)
      else checkOwnOutputs E h rest (RemoveEntry E v (h, txOutIdx)))"

definition missingParentsOf :: "('v, 'e, 'l, 'f) env \<Rightarrow> 'v \<Rightarrow> hash list" where
  "missingParentsOf E v =
     map (\<lambda>(outpoint, entry). fst outpoint)
       (filter (\<lambda>(outpoint, entry). case entry of None \<Rightarrow> True | Some e \<Rightarrow> IsSpent E e)
          (Entries E v))"

text \<open>
  \<open>maybeAcceptTransaction\<close> up to and including the check of non-standard inputs:
  an error, the missing parents (a non-empty list), or the view and the fee.
\<close>

definition acceptChecks ::
  "'f config \<Rightarrow> ('v, 'e, 'l, 'f) env \<Rightarrow> tx \<Rightarrow> bool \<Rightarrow> 'f txPool
   \<Rightarrow> error + (hash list + ('v \<times> int))" where
  "acceptChecks cfg E t rejectDupOrphans s =
     (if pool s (txHash t) \<noteq> None \<or> (rejectDupOrphans \<and> orphans s (txHash t) \<noteq> None)
      then Inl (txRuleError RejectDuplicate)
      else
      case CheckTransactionSanity E t (magneticAnomalyActive cfg E) (upgrade9Active cfg E)
             (scriptFlags cfg E) of
        Some err \<Rightarrow> Inl (wrapExtError err)
      | None \<Rightarrow>
      if IsCoinBase E t then Inl (txRuleError RejectInvalid)
      else
      case (if \<not> AcceptNonStd (Policy cfg)
            then checkTransactionStandard E t (nextBlockHeight E) (MedianTimePast E)
                   (MinRelayTxFee (Policy cfg)) (MaxTxVersion (Policy cfg))
                   (upgrade9Active cfg E)
            else None) of
        Some err \<Rightarrow> Inl (standardError err)
      | None \<Rightarrow>
      case checkPoolDoubleSpend s t of
        Some err \<Rightarrow> Inl err
      | None \<Rightarrow>
      case fetchInputUtxos E s t of
        Inl err \<Rightarrow> Inl (wrapExtError err)
      | Inr utxoView0 \<Rightarrow>
      case checkOwnOutputs E (txHash t) [0 ..< length (txOut t)] utxoView0 of
        Inl err \<Rightarrow> Inl err
      | Inr utxoView \<Rightarrow>
      if missingParentsOf E utxoView \<noteq> [] then Inr (Inl (missingParentsOf E utxoView))
      else
      case CalcSequenceLock E t utxoView of
        Inl err \<Rightarrow> Inl (wrapExtError err)
      | Inr sequenceLock \<Rightarrow>
      if \<not> SequenceLockActive E sequenceLock (nextBlockHeight E) (MedianTimePast E)
      then Inl (txRuleError RejectNonstandard)
      else
      case CheckTransactionInputs E t (nextBlockHeight E) utxoView of
        Inl err \<Rightarrow> Inl (wrapExtError err)
      | Inr txFee \<Rightarrow>
      case (if \<not> AcceptNonStd (Policy cfg)
            then checkInputsStandard E t utxoView (scriptFlags cfg E) else None) of
        Some err \<Rightarrow> Inl (standardError err)
      | None \<Rightarrow> Inr (Inr (utxoView, txFee)))"

text \<open>The fee gate and the priority gate.\<close>

definition feeChecks ::
  "'f config \<Rightarrow> ('v, 'e, 'l, 'f) env \<Rightarrow> tx \<Rightarrow> bool \<Rightarrow> 'v \<Rightarrow> int \<Rightarrow> error option" where
  "feeChecks cfg E t isNew utxoView txFee =
     (let serializedSize = serializeSize t;
          minFee = calcMinRequiredTxRelayFee serializedSize (MinRelayTxFee (Policy cfg))
      in if serializedSize \<ge> DefaultBlockPrioritySize - 1000 \<and> txFee < minFee
         then Some (txRuleError RejectInsufficientFee)
         else if isNew \<and> \<not> DisableRelayPriority (Policy cfg) \<and> txFee < minFee
                 \<and> f_le E (CalcPriority E t utxoView (nextBlockHeight E)) (MinHighPriority E)
         then Some (txRuleError RejectInsufficientFee)
         else None)"

text \<open>
  The rate limiter of free transactions; \<open>nowUnix\<close> is \<open>time.Now().Unix()\<close>, the
  clock reading in whole seconds, and the base of the decay is the constant
  \<open>1.0-1.0/600.0\<close>.
\<close>

definition freeRelayLimit :: "'f config \<Rightarrow> ('v, 'e, 'l, 'f) env \<Rightarrow> 'f" where
  "freeRelayLimit cfg E =
     f_mul E (f_mul E (FreeTxRelayLimit (Policy cfg)) (f_of_int E 10)) (f_of_int E 1000)"

definition decayedPennyTotal :: "('v, 'e, 'l, 'f) env \<Rightarrow> 'f txPool \<Rightarrow> 'f" where
  "decayedPennyTotal E s =
     f_mul E (pennyTotal s)
       (f_pow E (f_of_rat E (1 - 1 / 600))
          (f_of_int E (unixSeconds (timeNow E) - lastPennyUnix s)))"

definition rateLimitFree ::
  "'f config \<Rightarrow> ('v, 'e, 'l, 'f) env \<Rightarrow> tx \<Rightarrow> bool \<Rightarrow> int \<Rightarrow> 'f txPool
   \<Rightarrow> error option \<times> 'f txPool" where
  "rateLimitFree cfg E t rateLimit txFee s =
     (if rateLimit
         \<and> txFee < calcMinRequiredTxRelayFee (serializeSize t) (MinRelayTxFee (Policy cfg))
      then (let s1 = s\<lparr>pennyTotal := decayedPennyTotal E s,
                       lastPennyUnix := unixSeconds (timeNow E)\<rparr>
            in if f_ge E (pennyTotal s1) (freeRelayLimit cfg E)
               then (Some (txRuleError RejectInsufficientFee), s1)
               else (None,
                     s1\<lparr>pennyTotal := f_add E (pennyTotal s1) (f_of_int E (serializeSize t))\<rparr>))
      else (None, s))"

text \<open>
  The three results of \<open>maybeAcceptTransaction\<close>: a non-nil error; a nil error with a
  non-empty list of missing parents; a nil error with the descriptor of the accepted
  transaction.
\<close>

datatype 'f acceptResult = Rejected error | MissingParents "hash list" | Accepted "'f txDesc"

definition maybeAcceptTransaction ::
  "'f config \<Rightarrow> ('v, 'e, 'l, 'f) env \<Rightarrow> tx \<Rightarrow> bool \<Rightarrow> bool \<Rightarrow> bool \<Rightarrow> 'f txPool
   \<Rightarrow> 'f acceptResult \<times> 'f txPool" where
  "maybeAcceptTransaction cfg E t isNew rateLimit rejectDupOrphans s =
     (case acceptChecks cfg E t rejectDupOrphans s of
        Inl err \<Rightarrow> (Rejected err, s)
      | Inr (Inl missingParents) \<Rightarrow> (MissingParents missingParents, s)
      | Inr (Inr (utxoView, txFee)) \<Rightarrow>
          (case feeChecks cfg E t isNew utxoView txFee of
             Some err \<Rightarrow> (Rejected err, s)
           | None \<Rightarrow>
               (case rateLimitFree cfg E t rateLimit txFee s of
                  (Some err, s1) \<Rightarrow> (Rejected err, s1)
                | (None, s1) \<Rightarrow>
                    (case ValidateTransactionScripts E t utxoView (scriptFlags cfg E)
                            (Upgrade9ForkHeight (ChainParams cfg)) of
                       Some err \<Rightarrow> (Rejected (wrapExtError err), s1)
                     | None \<Rightarrow>
                         (case addTransaction E utxoView t (BestHeight E) txFee s1 of
                            (txD, s2) \<Rightarrow> (Accepted txD, s2))))))"

definition MaybeAcceptTransaction ::
  "'f config \<Rightarrow> ('v, 'e, 'l, 'f) env \<Rightarrow> tx \<Rightarrow> bool \<Rightarrow> bool \<Rightarrow> 'f txPool
   \<Rightarrow> 'f acceptResult \<times> 'f txPool" where
  "MaybeAcceptTransaction cfg E t isNew rateLimit s =
     maybeAcceptTransaction cfg E t isNew rateLimit True s"

section \<open>Promotion of orphans\<close>

text \<open>
  The loop of \<open>processOrphans\<close> over the orphans that redeem one output. The state of
  the loop is the pool, the accepted descriptors and the list of transactions still to
  process. The loop stops at the first orphan that is rejected or accepted.
\<close>

fun tryRedeemers ::
  "nat \<Rightarrow> hash list \<Rightarrow> 'f config \<Rightarrow> ('v, 'e, 'l, 'f) env \<Rightarrow> outPoint \<Rightarrow> hash list
   \<Rightarrow> 'f txPool \<times> 'f txDesc list \<times> tx list
   \<Rightarrow> ('f txPool \<times> 'f txDesc list \<times> tx list) option" where
  "tryRedeemers fuel ord cfg E prevOut [] st = Some st"
| "tryRedeemers fuel ord cfg E prevOut (h # hs) (s, acceptedTxns, processList) =
     (case lookupPrev s prevOut h of
        None \<Rightarrow> tryRedeemers fuel ord cfg E prevOut hs (s, acceptedTxns, processList)
      | Some t \<Rightarrow>
          (case maybeAcceptTransaction cfg E t True True False s of
             (Rejected err, s') \<Rightarrow>
               (case removeOrphan fuel ord t True s' of
                  None \<Rightarrow> None
                | Some s'' \<Rightarrow> Some (s'', acceptedTxns, processList))
           | (MissingParents missing, s') \<Rightarrow>
               tryRedeemers fuel ord cfg E prevOut hs (s', acceptedTxns, processList)
           | (Accepted txD, s') \<Rightarrow>
               (case removeOrphan fuel ord t False s' of
                  None \<Rightarrow> None
                | Some s'' \<Rightarrow> Some (s'', acceptedTxns @ [txD], processList @ [t]))))"

fun processLoop ::
  "nat \<Rightarrow> nat \<Rightarrow> hash list \<Rightarrow> 'f config \<Rightarrow> ('v, 'e, 'l, 'f) env \<Rightarrow> tx list
   \<Rightarrow> 'f txPool \<times> 'f txDesc list \<Rightarrow> ('f txPool \<times> 'f txDesc list) option" where
  "processLoop 0 fuel ord cfg E processList st = None"
| "processLoop (Suc k) fuel ord cfg E [] st = Some st"
| "processLoop (Suc k) fuel ord cfg E (processItem # rest) (s, acceptedTxns) =
     (case forEachM
             (\<lambda>txOutIdx. tryRedeemers fuel ord cfg E (txHash processItem, txOutIdx) ord)
             [0 ..< length (txOut processItem)] (s, acceptedTxns, rest) of
        None \<Rightarrow> None
      | Some (s', acceptedTxns', processList') \<Rightarrow>
          processLoop k fuel ord cfg E processList' (s', acceptedTxns'))"

definition processOrphans ::
  "nat \<Rightarrow> hash list \<Rightarrow> 'f config \<Rightarrow> ('v, 'e, 'l, 'f) env \<Rightarrow> tx \<Rightarrow> 'f txPool
   \<Rightarrow> ('f txDesc list \<times> 'f txPool) option" where
  "processOrphans fuel ord cfg E acceptedTx s =
     (case processLoop fuel fuel ord cfg E [acceptedTx] (s, []) of
        None \<Rightarrow> None
      | Some (s1, acceptedTxns) \<Rightarrow>
          (case forEachM (removeOrphanDoubleSpends fuel ord)
                  (acceptedTx # map Tx acceptedTxns) s1 of
             None \<Rightarrow> None
           | Some s2 \<Rightarrow> Some (acceptedTxns, s2)))"

definition ProcessOrphans ::
  "nat \<Rightarrow> hash list \<Rightarrow> 'f config \<Rightarrow> ('v, 'e, 'l, 'f) env \<Rightarrow> tx \<Rightarrow> 'f txPool
   \<Rightarrow> ('f txDesc list \<times> 'f txPool) option" where
  "ProcessOrphans fuel ord cfg E acceptedTx s = processOrphans fuel ord cfg E acceptedTx s"

text \<open>
  \<open>ProcessTransaction\<close> returns the accepted descriptors and an error: \<open>Inl\<close> is a
  non-nil error (with a nil list), \<open>Inr\<close> a nil error with the list, which is nil
  (\<open>[]\<close>) when the transaction went to the orphan pool. \<open>now\<close> and \<open>now'\<close> are the
  two clock readings of \<open>addOrphan\<close>.
\<close>

definition ProcessTransaction ::
  "nat \<Rightarrow> hash list \<Rightarrow> 'f config \<Rightarrow> ('v, 'e, 'l, 'f) env \<Rightarrow> time \<Rightarrow> time \<Rightarrow> tx \<Rightarrow> bool
   \<Rightarrow> bool \<Rightarrow> nat \<Rightarrow> 'f txPool \<Rightarrow> ((error + 'f txDesc list) \<times> 'f txPool) option" where
  "ProcessTransaction fuel ord cfg E now now' t allowOrphan rateLimit tg s =
     (case maybeAcceptTransaction cfg E t True rateLimit True s of
        (Rejected err, s1) \<Rightarrow> Some (Inl err, s1)
      | (Accepted txD, s1) \<Rightarrow>
          (case processOrphans fuel ord cfg E t s1 of
             None \<Rightarrow> None
           | Some (newTxs, s2) \<Rightarrow> Some (Inr (txD # newTxs), s2))
      | (MissingParents missingParents, s1) \<Rightarrow>
          if \<not> allowOrphan then Some (Inl (txRuleError RejectDuplicate), s1)
          else (case maybeAddOrphan fuel ord cfg now now' t tg s1 of
                  None \<Rightarrow> None
                | Some (None, s2) \<Rightarrow> Some (Inr [], s2)
                | Some (Some err, s2) \<Rightarrow> Some (Inl err, s2)))"

text \<open>\<open>New\<close>; \<open>now\<close> is the clock reading, the \<open>float64\<close> zero value is \<open>f_of_int E 0\<close>.\<close>

definition New :: "('v, 'e, 'l, 'f) env \<Rightarrow> time \<Rightarrow> 'f txPool" where
  "New E now =
     \<lparr>lastUpdated = 0, pool = Map.empty, orphans = Map.empty, orphansByPrev = Map.empty,
      outpoints = Map.empty, pennyTotal = f_of_int E 0, lastPennyUnix = 0,
      nextExpireScan = now + orphanExpireScanInterval\<rparr>"

section \<open>States reachable through the public methods\<close>

text \<open>
  A state of the pool is reachable when it is the state after \<open>New\<close> or the state in
  which a call of a public method that writes the pool returns, started in a reachable
  state. The environments of the calls come from the set \<open>envs\<close>, and the order
  \<open>ord\<close> of a call lists every key of \<open>orphans\<close>, as a \<open>range\<close> visits every
  entry. The remaining public methods only read the pool.
\<close>

inductive reachable ::
  "'f config \<Rightarrow> ('v, 'e, 'l, 'f) env set \<Rightarrow> 'f txPool \<Rightarrow> bool"
  for cfg :: "'f config" and envs :: "('v, 'e, 'l, 'f) env set" where
  r_New: "E \<in> envs \<Longrightarrow> reachable cfg envs (New E now)"
| r_RemoveOrphan:
    "reachable cfg envs s \<Longrightarrow> dom (orphans s) \<subseteq> set ord
     \<Longrightarrow> RemoveOrphan fuel ord t s = Some s' \<Longrightarrow> reachable cfg envs s'"
| r_RemoveOrphansByTag:
    "reachable cfg envs s \<Longrightarrow> dom (orphans s) \<subseteq> set ord
     \<Longrightarrow> RemoveOrphansByTag fuel ord tg s = Some (n, s')
     \<Longrightarrow> reachable cfg envs s'"
| r_RemoveTransaction:
    "reachable cfg envs s \<Longrightarrow> RemoveTransaction fuel now t removeRedeemers s = Some s'
     \<Longrightarrow> reachable cfg envs s'"
| r_RemoveDoubleSpends:
    "reachable cfg envs s \<Longrightarrow> RemoveDoubleSpends fuel now t s = Some s'
     \<Longrightarrow> reachable cfg envs s'"
| r_MaybeAcceptTransaction:
    "reachable cfg envs s \<Longrightarrow> E \<in> envs
     \<Longrightarrow> MaybeAcceptTransaction cfg E t isNew rateLimit s = (r, s')
     \<Longrightarrow> reachable cfg envs s'"
| r_ProcessOrphans:
    "reachable cfg envs s \<Longrightarrow> E \<in> envs \<Longrightarrow> dom (orphans s) \<subseteq> set ord
     \<Longrightarrow> ProcessOrphans fuel ord cfg E t s = Some (acceptedTxns, s')
     \<Longrightarrow> reachable cfg envs s'"
| r_ProcessTransaction:
    "reachable cfg envs s \<Longrightarrow> E \<in> envs \<Longrightarrow> dom (orphans s) \<subseteq> set ord
     \<Longrightarrow> ProcessTransaction fuel ord cfg E now now' t allowOrphan rateLimit tg s = Some (r, s')
     \<Longrightarrow> reachable cfg envs s'"

section \<open>Invariants of the pool\<close>

text \<open>
  The spender index covers the pool: the key of a pool entry is the hash of its
  transaction, and every input of the transaction is a key of \<open>outpoints\<close> with this
  transaction as its value.
\<close>

definition poolIndexed :: "'f txPool \<Rightarrow> bool" where
  "poolIndexed s \<longleftrightarrow>
     (\<forall>h d. pool s h = Some d \<longrightarrow>
        txHash (Tx d) = h \<and> (\<forall>p \<in> set (txIn (Tx d)). outpoints s p = Some (Tx d)))"

text \<open>
  The orphan index agrees with the orphan pool, except for the orphans in \<open>X\<close>, which
  are those a running \<open>removeOrphan\<close> has already taken out of the index and not yet
  out of the pool.
\<close>

definition orphanIndexed :: "hash set \<Rightarrow> 'f txPool \<Rightarrow> bool" where
  "orphanIndexed X s \<longleftrightarrow>
     (\<forall>h ot. orphans s h = Some ot \<longrightarrow> txHash (otx ot) = h)
     \<and> (\<forall>h ot p. orphans s h = Some ot \<and> h \<notin> X \<and> p \<in> set (txIn (otx ot))
           \<longrightarrow> lookupPrev s p h = Some (otx ot))
     \<and> (\<forall>p h t. lookupPrev s p h = Some t
           \<longrightarrow> h \<notin> X \<and> p \<in> set (txIn t) \<and> (\<exists>ot. orphans s h = Some ot \<and> otx ot = t))"

definition poolInv :: "'f txPool \<Rightarrow> bool" where
  "poolInv s \<longleftrightarrow>
     poolIndexed s \<and> dom (pool s) \<inter> dom (orphans s) = {} \<and> orphanIndexed {} s
     \<and> finite (dom (orphans s))"

text \<open>
  What a removal of orphans may change: entries of \<open>orphans\<close> and of the orphan index
  disappear, nothing else changes.
\<close>

definition orphanShrink :: "'f txPool \<Rightarrow> 'f txPool \<Rightarrow> bool" where
  "orphanShrink s s' \<longleftrightarrow>
     pool s' = pool s \<and> outpoints s' = outpoints s \<and> lastUpdated s' = lastUpdated s
     \<and> pennyTotal s' = pennyTotal s \<and> lastPennyUnix s' = lastPennyUnix s
     \<and> nextExpireScan s' = nextExpireScan s
     \<and> (\<forall>h. orphans s' h = None \<or> orphans s' h = orphans s h)
     \<and> (\<forall>p h. lookupPrev s' p h = None \<or> lookupPrev s' p h = lookupPrev s p h)"

text \<open>
  What a removal of transactions may change: entries of \<open>pool\<close> disappear, with
  their inputs in \<open>outpoints\<close>; the orphan pool and the rate limiter stay.
\<close>

definition poolShrink :: "'f txPool \<Rightarrow> 'f txPool \<Rightarrow> bool" where
  "poolShrink s s' \<longleftrightarrow>
     orphans s' = orphans s \<and> orphansByPrev s' = orphansByPrev s
     \<and> pennyTotal s' = pennyTotal s \<and> lastPennyUnix s' = lastPennyUnix s
     \<and> nextExpireScan s' = nextExpireScan s \<and> dom (pool s') \<subseteq> dom (pool s)
     \<and> (poolIndexed s \<longrightarrow> poolIndexed s')"


text \<open>
  Between \<open>s\<close> and \<open>s'\<close> orphans were removed with their redeemers: no output of an
  orphan that is gone has a redeemer left in the index.
\<close>

definition removedWithRedeemers :: "'f txPool \<Rightarrow> 'f txPool \<Rightarrow> bool" where
  "removedWithRedeemers s s' \<longleftrightarrow>
     (\<forall>z oz i h. orphans s z = Some oz \<and> orphans s' z = None \<and> i < length (txOut (otx oz))
        \<longrightarrow> lookupPrev s' (z, i) h = None)"

section \<open>Orphans that arrive in a given order\<close>

text \<open>
  A run of \<open>addOrphan\<close>, one call for each orphan of the list and in the order of the
  list. An entry is the transaction, its tag and the two clock readings of the call.
\<close>

fun addOrphans ::
  "nat \<Rightarrow> hash list \<Rightarrow> 'f config \<Rightarrow> (tx \<times> nat \<times> time \<times> time) list \<Rightarrow> 'f txPool
   \<Rightarrow> 'f txPool option" where
  "addOrphans fuel ord cfg [] s = Some s"
| "addOrphans fuel ord cfg ((t, tg, now, now') # rest) s =
     (case addOrphan fuel ord cfg now now' t tg s of
        None \<Rightarrow> None
      | Some s' \<Rightarrow> addOrphans fuel ord cfg rest s')"

text \<open>
  What a call of \<open>addOrphan\<close> stores when it neither scans nor evicts, with the
  expiration time left out: the entry of \<open>orphans\<close> and the links of \<open>orphansByPrev\<close>.
\<close>

definition storeOrphan :: "tx \<times> nat \<Rightarrow> 'f txPool \<Rightarrow> 'f txPool" where
  "storeOrphan x s =
     fold (linkPrev (fst x)) (txIn (fst x))
       (s\<lparr>orphans := (orphans s)
             (txHash (fst x) \<mapsto> \<lparr>otx = fst x, tag = snd x, expiration = 0\<rparr>)\<rparr>)"

text \<open>
  The pool with the expiration time of every orphan set to zero. Only the expiry scan of
  \<open>limitNumOrphans\<close> reads the expiration times.
\<close>

definition forgetExpiry :: "'f txPool \<Rightarrow> 'f txPool" where
  "forgetExpiry s =
     s\<lparr>orphans := (\<lambda>h. map_option (\<lambda>ot. ot\<lparr>expiration := 0\<rparr>) (orphans s h))\<rparr>"

section \<open>A concrete scenario\<close>

text \<open>
  A small chain and three transactions, used to run the definitions: a view is the
  list of its entries, an entry is its spent flag, the chain knows exactly the outputs
  of the transaction with hash 0, every check of the collaborators passes and every
  transaction pays the fee \<open>fee\<close>. \<open>float64\<close> is read as the real numbers.
\<close>

type_synonym demoView = "(outPoint \<times> bool option) list"

definition demoAddTxOut :: "demoView \<Rightarrow> tx \<Rightarrow> nat \<Rightarrow> 32 word \<Rightarrow> demoView" where
  "demoAddTxOut v t i h =
     (if i < length (txOut t)
      then filter (\<lambda>(k, e). k \<noteq> (txHash t, i)) v @ [((txHash t, i), Some False)]
      else v)"

definition demoEnv :: "int \<Rightarrow> time \<Rightarrow> (demoView, bool, unit, real) env" where
  "demoEnv fee now =
     \<lparr>MedianTimePast = 1750000000, BestHeight = 800000, timeNow = now,
      CheckTransactionSanity = (\<lambda>t m u f. None),
      IsCoinBase = (\<lambda>t. False),
      checkTransactionStandard = (\<lambda>t h m r v u. None),
      FetchUtxoView = (\<lambda>t. Inr (map (\<lambda>p. (p, if fst p = 0 then Some False else None)) (txIn t))),
      LookupEntry = (\<lambda>v p. case map_of v p of Some (Some e) \<Rightarrow> Some e | _ \<Rightarrow> None),
      IsSpent = (\<lambda>e. e),
      AddTxOut = demoAddTxOut,
      RemoveEntry = (\<lambda>v p. filter (\<lambda>(k, e). k \<noteq> p) v),
      Entries = (\<lambda>v. v),
      UnminedHeight = 0x7fffffff,
      CalcSequenceLock = (\<lambda>t v. Inr ()),
      SequenceLockActive = (\<lambda>l h m. True),
      CheckTransactionInputs = (\<lambda>t h v. Inr fee),
      checkInputsStandard = (\<lambda>t v f. None),
      CalcPriority = (\<lambda>t v h. 0),
      MinHighPriority = 57600000,
      ValidateTransactionScripts = (\<lambda>t v f u. None),
      StandardVerifyFlags = 3,
      ScriptVerifyInputSigChecks = 2,
      ScriptAllowCashTokens = 4,
      ScriptAllowMay2025 = 8,
      ScriptAllowMay2025StandardOnly = 16,
      f_mul = (\<lambda>x y. x * y),
      f_add = (\<lambda>x y. x + y),
      f_pow = (\<lambda>x y. x powr y),
      f_ge = (\<lambda>x y. x \<ge> y),
      f_le = (\<lambda>x y. x \<le> y),
      f_of_int = real_of_int,
      f_of_rat = real_of_rat\<rparr>"

definition demoCfg :: "int \<Rightarrow> real config" where
  "demoCfg maxOrphans =
     \<lparr>Policy = \<lparr>MaxTxVersion = 2, DisableRelayPriority = True, AcceptNonStd = False,
                FreeTxRelayLimit = 15, MaxOrphanTxs = maxOrphans, MaxOrphanTxSize = 100000,
                LimitSigChecks = False, MinRelayTxFee = 1000\<rparr>,
      ChainParams = \<lparr>MagneticAnonomalyForkHeight = 556766, Upgrade9ForkHeight = 792772,
                     Upgrade11ActivationTime = 1747310400\<rparr>\<rparr>"

definition demoOut :: txOut where
  "demoOut = \<lparr>Value = 1000, PkScript = []\<rparr>"

definition txParent :: tx where
  "txParent = \<lparr>txHash = 1, txIn = [(0, 0)], txOut = [demoOut, demoOut], serializeSize = 200\<rparr>"

definition txChild1 :: tx where
  "txChild1 = \<lparr>txHash = 2, txIn = [(1, 0)], txOut = [demoOut], serializeSize = 200\<rparr>"

definition txChild2 :: tx where
  "txChild2 = \<lparr>txHash = 3, txIn = [(1, 1)], txOut = [demoOut], serializeSize = 200\<rparr>"

definition txBig :: tx where
  "txBig = \<lparr>txHash = 4, txIn = [(0, 1)], txOut = [demoOut], serializeSize = 1599000\<rparr>"

definition demoPool :: "real txPool" where
  "demoPool = New (demoEnv 1000 0) 0"



definition demoOrphan :: "tx \<Rightarrow> orphanTx" where
  "demoOrphan t = \<lparr>otx = t, tag = 7, expiration = 900000000000\<rparr>"

definition demoDesc :: "tx \<Rightarrow> real txDesc" where
  "demoDesc t = \<lparr>Tx = t, Added = 0, Height = 800000, Fee = 1000, FeePerKB = 5000,
                 StartingPriority = 0\<rparr>"

definition txStray :: tx where
  "txStray = \<lparr>txHash = 5, txIn = [(9, 0)], txOut = [demoOut], serializeSize = 200\<rparr>"

definition demoPoolP :: "real txPool" where
  "demoPoolP = demoPool\<lparr>pool := [1 \<mapsto> demoDesc txParent], outpoints := [(0, 0) \<mapsto> txParent]\<rparr>"

definition demoPoolMixed :: "real txPool" where
  "demoPoolMixed = demoPoolP\<lparr>orphans := [5 \<mapsto> demoOrphan txStray],
                             orphansByPrev := [(9, 0) \<mapsto> [5 \<mapsto> txStray]]\<rparr>"

definition demoPoolC1 :: "real txPool" where
  "demoPoolC1 = demoPool\<lparr>orphans := [2 \<mapsto> demoOrphan txChild1],
                         orphansByPrev := [(1, 0) \<mapsto> [2 \<mapsto> txChild1]]\<rparr>"

definition demoPoolC2 :: "real txPool" where
  "demoPoolC2 = demoPool\<lparr>orphans := [3 \<mapsto> demoOrphan txChild2],
                         orphansByPrev := [(1, 1) \<mapsto> [3 \<mapsto> txChild2]]\<rparr>"




text \<open>
  The two children in the orphan pool: the first stored at time 0, the second one minute
  later, in either order.
\<close>

definition demoPool12 :: "real txPool" where
  "demoPool12 =
     demoPool\<lparr>orphans := [2 \<mapsto> \<lparr>otx = txChild1, tag = 7, expiration = 900000000000\<rparr>,
                           3 \<mapsto> \<lparr>otx = txChild2, tag = 7, expiration = 960000000000\<rparr>],
              orphansByPrev := [(1, 0) \<mapsto> [2 \<mapsto> txChild1], (1, 1) \<mapsto> [3 \<mapsto> txChild2]]\<rparr>"

definition demoPool21 :: "real txPool" where
  "demoPool21 =
     demoPool\<lparr>orphans := [3 \<mapsto> \<lparr>otx = txChild2, tag = 7, expiration = 900000000000\<rparr>,
                           2 \<mapsto> \<lparr>otx = txChild1, tag = 7, expiration = 960000000000\<rparr>],
              orphansByPrev := [(1, 1) \<mapsto> [3 \<mapsto> txChild2], (1, 0) \<mapsto> [2 \<mapsto> txChild1]]\<rparr>"

section \<open>The script flags of a call\<close>

lemma xor_remove_flag:
  fixes a b :: "32 word"
  assumes "b AND a = b"
  shows "a XOR b = a AND NOT b"
  using assms by (auto simp: bit_eq_iff bit_simps)

text \<open>
  Claim C7. In \<open>maybeAcceptTransaction\<close> the script flags are the standard flags,
  without \<open>ScriptVerifyInputSigChecks\<close> exactly when \<open>LimitSigChecks\<close> is false, with
  \<open>ScriptAllowCashTokens\<close> exactly when the next block height is above
  \<open>Upgrade9ForkHeight\<close>, with \<open>ScriptAllowMay2025\<close> exactly when the median time past
  has reached \<open>Upgrade11ActivationTime\<close>, and then with
  \<open>ScriptAllowMay2025StandardOnly\<close> too when non-standard transactions are not
  accepted; \<open>magneticAnomalyActive\<close> holds exactly when the next block height is above
  \<open>MagneticAnonomalyForkHeight\<close>. The heights are \<open>int32\<close> and the times \<open>int64\<close>
  values as in the code; the constants of package \<open>txscript\<close> are parameters, of
  which the standard flags contain \<open>ScriptVerifyInputSigChecks\<close>.
\<close>

theorem C7_script_flags:
  assumes "ScriptVerifyInputSigChecks E AND StandardVerifyFlags E = ScriptVerifyInputSigChecks E"
  shows "scriptFlags cfg E =
           (if LimitSigChecks (Policy cfg) then StandardVerifyFlags E
            else StandardVerifyFlags E AND NOT (ScriptVerifyInputSigChecks E))
           OR (if sint (BestHeight E + 1) > sint (Upgrade9ForkHeight (ChainParams cfg))
               then ScriptAllowCashTokens E else 0)
           OR (if sint (MedianTimePast E) \<ge> sint (Upgrade11ActivationTime (ChainParams cfg))
               then ScriptAllowMay2025 E else 0)
           OR (if sint (MedianTimePast E) \<ge> sint (Upgrade11ActivationTime (ChainParams cfg))
                  \<and> \<not> AcceptNonStd (Policy cfg)
               then ScriptAllowMay2025StandardOnly E else 0)
         \<and> magneticAnomalyActive cfg E =
             (sint (BestHeight E + 1) > sint (MagneticAnonomalyForkHeight (ChainParams cfg)))"
  using xor_remove_flag [OF assms]
  by (simp add: scriptFlags_def upgrade9Active_def upgrade11Active_def magneticAnomalyActive_def
      nextBlockHeight_def word_sless_alt word_sle_eq Let_def or.assoc)

theorem C7_script_flags_witness:
  "scriptFlags (demoCfg 1) (demoEnv 1000 0) = 29
   \<and> magneticAnomalyActive (demoCfg 1) (demoEnv 1000 0)"
  using C7_script_flags [of "demoEnv 1000 0" "demoCfg 1"]
  by (simp add: demoEnv_def demoCfg_def)

section \<open>The fee gate\<close>


lemma addTransaction_Fee: "addTransaction E v t h fee s = (txD, s') \<Longrightarrow> Fee txD = fee \<and> Tx txD = t"
  by (auto simp: addTransaction_def Let_def)

lemma maybeAccept_Accepted:
  assumes "maybeAcceptTransaction cfg E t isNew rateLimit rdo s = (Accepted txD, s')"
  shows "\<exists>v s1. acceptChecks cfg E t rdo s = Inr (Inr (v, Fee txD))
           \<and> feeChecks cfg E t isNew v (Fee txD) = None
           \<and> rateLimitFree cfg E t rateLimit (Fee txD) s = (None, s1)
           \<and> ValidateTransactionScripts E t v (scriptFlags cfg E) (Upgrade9ForkHeight (ChainParams cfg)) = None
           \<and> addTransaction E v t (BestHeight E) (Fee txD) s1 = (txD, s')"
  using assms
  by (auto simp: maybeAcceptTransaction_def split: sum.splits option.splits prod.splits
      dest: addTransaction_Fee)



lemmas demo_defs = demoCfg_def demoEnv_def demoPool_def New_def txParent_def txChild1_def
  txChild2_def txBig_def demoOut_def demoAddTxOut_def

lemmas accept_defs = acceptChecks_def checkPoolDoubleSpend_def fetchInputUtxos_def
  missingParentsOf_def scriptFlags_def upgrade9Active_def upgrade11Active_def
  magneticAnomalyActive_def nextBlockHeight_def feeChecks_def rateLimitFree_def
  calcMinRequiredTxRelayFee_def go_quot_def DefaultBlockPrioritySize_def addTransaction_def
  txRuleError_def decayedPennyTotal_def freeRelayLimit_def unixSeconds_def







lemma addTransaction_frame:
  "addTransaction E v t h fee s = (txD, s') \<Longrightarrow>
     pennyTotal s' = pennyTotal s \<and> lastPennyUnix s' = lastPennyUnix s
     \<and> orphans s' = orphans s \<and> orphansByPrev s' = orphansByPrev s
     \<and> nextExpireScan s' = nextExpireScan s"
  by (auto simp: addTransaction_def Let_def)

lemma rateLimitFree_frame:
  "rateLimitFree cfg E t rateLimit txFee s = (r, s') \<Longrightarrow>
     pool s' = pool s \<and> outpoints s' = outpoints s \<and> orphans s' = orphans s
     \<and> orphansByPrev s' = orphansByPrev s \<and> lastUpdated s' = lastUpdated s
     \<and> nextExpireScan s' = nextExpireScan s"
  by (auto simp: rateLimitFree_def Let_def split: if_splits)

section \<open>The rate limiter of free transactions\<close>

text \<open>
  Claim C8. A call of \<open>maybeAcceptTransaction\<close> reaches the rate limiter when the
  transaction has passed every earlier check (\<open>acceptChecks\<close> and \<open>feeChecks\<close>).
  Exactly when it does so with \<open>rateLimit\<close> set and a fee below the minimum relay
  fee, the call multiplies \<open>pennyTotal\<close> by \<open>1 - 1/600\<close> to the power of the number
  of seconds between \<open>lastPennyUnix\<close> and the clock reading (a reading in nanoseconds,
  divided by \<open>1000000000\<close>), and sets \<open>lastPennyUnix\<close> to the second of the reading;
  it rejects with \<open>RejectInsufficientFee\<close>, leaving the decayed total, when that total
  is at least \<open>FreeTxRelayLimit*10*1000\<close>, and otherwise adds the serialized size to
  it. In every other call both fields keep their values. Product, sum, power and
  comparison are the \<open>float64\<close> operations of the environment.
\<close>

theorem C8_free_rate_limit:
  assumes run: "maybeAcceptTransaction cfg E t isNew rateLimit rdo s = (r, s')"
  shows "(\<forall>v txFee.
            acceptChecks cfg E t rdo s = Inr (Inr (v, txFee))
            \<and> feeChecks cfg E t isNew v txFee = None
            \<and> rateLimit
            \<and> txFee < calcMinRequiredTxRelayFee (serializeSize t) (MinRelayTxFee (Policy cfg))
          \<longrightarrow> lastPennyUnix s' = timeNow E div 1000000000
              \<and> (if f_ge E
                       (f_mul E (pennyTotal s)
                          (f_pow E (f_of_rat E (1 - 1 / 600))
                             (f_of_int E (timeNow E div 1000000000 - lastPennyUnix s))))
                       (f_mul E (f_mul E (FreeTxRelayLimit (Policy cfg)) (f_of_int E 10))
                          (f_of_int E 1000))
                  then r = Rejected (TxRuleError RejectInsufficientFee)
                       \<and> pennyTotal s' =
                           f_mul E (pennyTotal s)
                             (f_pow E (f_of_rat E (1 - 1 / 600))
                                (f_of_int E (timeNow E div 1000000000 - lastPennyUnix s)))
                  else pennyTotal s' =
                         f_add E
                           (f_mul E (pennyTotal s)
                              (f_pow E (f_of_rat E (1 - 1 / 600))
                                 (f_of_int E (timeNow E div 1000000000 - lastPennyUnix s))))
                           (f_of_int E (serializeSize t))))
       \<and> ((\<forall>v txFee.
              acceptChecks cfg E t rdo s = Inr (Inr (v, txFee))
              \<and> feeChecks cfg E t isNew v txFee = None
              \<longrightarrow> \<not> (rateLimit
                     \<and> txFee < calcMinRequiredTxRelayFee (serializeSize t)
                                 (MinRelayTxFee (Policy cfg))))
          \<longrightarrow> pennyTotal s' = pennyTotal s \<and> lastPennyUnix s' = lastPennyUnix s)"
  using run
  by (auto simp: maybeAcceptTransaction_def rateLimitFree_def Let_def txRuleError_def
      decayedPennyTotal_def freeRelayLimit_def unixSeconds_def
      split: sum.splits option.splits prod.splits if_splits
      dest!: addTransaction_frame)

section \<open>Rejections\<close>


lemma maybeAccept_Missing:
  assumes "maybeAcceptTransaction cfg E t isNew rateLimit rdo s = (MissingParents ms, s')"
  shows "s' = s \<and> acceptChecks cfg E t rdo s = Inr (Inl ms)"
  using assms
  by (auto simp: maybeAcceptTransaction_def addTransaction_def Let_def
      split: sum.splits option.splits prod.splits)

lemma acceptChecks_not_dup:
  assumes "acceptChecks cfg E t rdo s = Inr x"
  shows "pool s (txHash t) = None \<and> (rdo \<longrightarrow> orphans s (txHash t) = None)"
  using assms by (auto simp: acceptChecks_def split: if_splits)

section \<open>Orphans when none are allowed\<close>

text \<open>
  Claim C10. With \<open>MaxOrphanTxs \<le> 0\<close>, \<open>ProcessTransaction\<close> called with
  \<open>allowOrphan\<close> set on a transaction that has missing parents and is not larger than
  \<open>MaxOrphanTxSize\<close> returns a nil list and a nil error, whatever the fuel, and leaves
  the pool state unchanged: the transaction is in neither the pool nor the orphan pool.
\<close>

theorem C10_orphans_disabled:
  assumes "MaxOrphanTxs (Policy cfg) \<le> 0"
      and "maybeAcceptTransaction cfg E t True rateLimit True s = (MissingParents ms, s1)"
      and "serializeSize t \<le> MaxOrphanTxSize (Policy cfg)"
  shows "ProcessTransaction fuel ord cfg E now now' t True rateLimit tg s = Some (Inr [], s)
       \<and> pool s (txHash t) = None \<and> orphans s (txHash t) = None"
proof -
  from maybeAccept_Missing [OF assms(2)] have s1: "s1 = s"
    and chk: "acceptChecks cfg E t True s = Inr (Inl ms)" by auto
  from acceptChecks_not_dup [OF chk] have "pool s (txHash t) = None" "orphans s (txHash t) = None"
    by auto
  moreover have "ProcessTransaction fuel ord cfg E now now' t True rateLimit tg s = Some (Inr [], s)"
    using assms s1 by (simp add: ProcessTransaction_def maybeAddOrphan_def addOrphan_def)
  ultimately show ?thesis by simp
qed


lemma demo_parent_checks:
  "acceptChecks (demoCfg m) (demoEnv fee now) txParent rdo (demoPool\<lparr>pennyTotal := x\<rparr>)
     = Inr (Inr ([((0, 0), Some False)], fee))"
  by (simp add: demo_defs accept_defs)

lemma demo_parent_feeChecks:
  "feeChecks (demoCfg m) (demoEnv fee now) txParent isNew v fee' = None"
  by (simp add: demo_defs accept_defs)

lemma demo_parent_minFee:
  "calcMinRequiredTxRelayFee (serializeSize txParent) (MinRelayTxFee (Policy (demoCfg m))) = 200"
  by (simp add: demo_defs accept_defs)

lemma demo_decay: "real_of_rat (599 / 600) = 599 / 600"
  by (simp add: of_rat_divide)

lemma demo_decay_60: "(599 / 600 :: real) powr 60 = (599 / 600) ^ 60"
  using powr_realpow [of "599 / 600 :: real" 60] by simp

theorem C8_free_rate_limit_witness:
  "acceptChecks (demoCfg 1) (demoEnv 5 60000000000) txParent True (demoPool\<lparr>pennyTotal := 1000\<rparr>)
     = Inr (Inr ([((0, 0), Some False)], 5))
   \<and> feeChecks (demoCfg 1) (demoEnv 5 60000000000) txParent True [((0, 0), Some False)] 5 = None
   \<and> 5 < calcMinRequiredTxRelayFee (serializeSize txParent) (MinRelayTxFee (Policy (demoCfg 1)))
   \<and> timeNow (demoEnv 5 60000000000) = 60000000000
   \<and> lastPennyUnix (demoPool\<lparr>pennyTotal := 1000\<rparr>) = 0
   \<and> fst (maybeAcceptTransaction (demoCfg 1) (demoEnv 5 60000000000) txParent True True True
             (demoPool\<lparr>pennyTotal := 1000\<rparr>)) = Accepted ((demoDesc txParent)\<lparr>Added := 60000000000, Fee := 5, FeePerKB := 25\<rparr>)
   \<and> pennyTotal (snd (maybeAcceptTransaction (demoCfg 1) (demoEnv 5 60000000000) txParent True
                         True True (demoPool\<lparr>pennyTotal := 1000\<rparr>)))
       = 1000 * (599 / 600) ^ 60 + 200
   \<and> lastPennyUnix (snd (maybeAcceptTransaction (demoCfg 1) (demoEnv 5 60000000000) txParent True
                         True True (demoPool\<lparr>pennyTotal := 1000\<rparr>))) = 60
   \<and> pennyTotal (snd (maybeAcceptTransaction (demoCfg 1) (demoEnv 5 60000000000) txParent True
                         True True (demoPool\<lparr>pennyTotal := 200000\<rparr>)))
       = 200000 * (599 / 600) ^ 60
   \<and> fst (maybeAcceptTransaction (demoCfg 1) (demoEnv 5 60000000000) txParent True True True
             (demoPool\<lparr>pennyTotal := 200000\<rparr>))
       = Rejected (TxRuleError RejectInsufficientFee)
   \<and> pennyTotal (snd (maybeAcceptTransaction (demoCfg 1) (demoEnv 1000 60000000000) txParent True
                         True True (demoPool\<lparr>pennyTotal := 7\<rparr>))) = 7
   \<and> lastPennyUnix (snd (maybeAcceptTransaction (demoCfg 1) (demoEnv 1000 60000000000) txParent
                         True True True (demoPool\<lparr>pennyTotal := 7\<rparr>))) = 0"
proof -
  let ?run = "\<lambda>fee x. maybeAcceptTransaction (demoCfg 1) (demoEnv fee 60000000000) txParent True
                        True True (demoPool\<lparr>pennyTotal := x\<rparr>)"
  have th: "\<And>fee x. ?run fee x = (fst (?run fee x), snd (?run fee x))" by simp
  note c8 = C8_free_rate_limit [OF th]
  have ge: "\<not> (150000 :: real) \<le> 1000 * (599 / 600) ^ 60"
  proof -
    have "(599 / 600 :: real) ^ 60 \<le> 1" by (rule power_le_one) simp_all
    then show ?thesis by simp
  qed
  have le: "(150000 :: real) \<le> 200000 * (599 / 600) ^ 60"
  proof -
    have "(9 / 10 :: real) \<le> (599 / 600) ^ 60"
      using Bernoulli_inequality [of "- (1 / 600) :: real" 60] by simp
    then show ?thesis by simp
  qed
  have a: "pennyTotal (snd (?run 5 1000)) = 1000 * (599 / 600) ^ 60 + 200
           \<and> lastPennyUnix (snd (?run 5 1000)) = 60"
    using c8 [of 5 1000, THEN conjunct1, rule_format, of "[((0, 0), Some False)]" 5] ge
    by (simp add: demo_parent_checks demo_parent_feeChecks demo_parent_minFee)
       (simp add: demo_defs demo_decay demo_decay_60)
  have b: "pennyTotal (snd (?run 5 200000)) = 200000 * (599 / 600) ^ 60
           \<and> fst (?run 5 200000) = Rejected (TxRuleError RejectInsufficientFee)"
    using c8 [of 5 200000, THEN conjunct1, rule_format, of "[((0, 0), Some False)]" 5] le
    by (simp add: demo_parent_checks demo_parent_feeChecks demo_parent_minFee)
       (simp add: demo_defs demo_decay demo_decay_60)
  have c: "pennyTotal (snd (?run 1000 7)) = 7 \<and> lastPennyUnix (snd (?run 1000 7)) = 0"
    using c8 [of 1000 7, THEN conjunct2]
    by (simp add: demo_parent_checks demo_parent_feeChecks demo_parent_minFee)
       (simp add: demo_defs)
  have d: "fst (?run 5 1000)
             = Accepted ((demoDesc txParent)\<lparr>Added := 60000000000, Fee := 5, FeePerKB := 25\<rparr>)"
    using ge
    by (simp add: maybeAcceptTransaction_def demo_parent_checks demo_parent_feeChecks)
       (simp add: demo_defs accept_defs demoDesc_def demo_decay demo_decay_60 Let_def)
  show ?thesis
    using a b c d
    by (simp add: demo_parent_checks demo_parent_feeChecks demo_parent_minFee)
       (simp add: demo_defs)
qed




lemma demo_child_missing:
  "maybeAcceptTransaction (demoCfg 0) (demoEnv 1000 0) txChild1 True True True demoPool
     = (MissingParents [1], demoPool)"
  by (simp add: maybeAcceptTransaction_def demo_defs accept_defs)

theorem C10_orphans_disabled_witness:
  "MaxOrphanTxs (Policy (demoCfg 0)) \<le> 0
   \<and> maybeAcceptTransaction (demoCfg 0) (demoEnv 1000 0) txChild1 True True True demoPool
       = (MissingParents [1], demoPool)
   \<and> serializeSize txChild1 \<le> MaxOrphanTxSize (Policy (demoCfg 0))
   \<and> ProcessTransaction 0 [] (demoCfg 0) (demoEnv 1000 0) 0 0 txChild1 True True 9 demoPool
       = Some (Inr [], demoPool)
   \<and> pool demoPool (txHash txChild1) = None \<and> orphans demoPool (txHash txChild1) = None"
proof -
  have a: "MaxOrphanTxs (Policy (demoCfg 0)) \<le> 0" by (simp add: demoCfg_def)
  have b: "serializeSize txChild1 \<le> MaxOrphanTxSize (Policy (demoCfg 0))"
    by (simp add: demoCfg_def txChild1_def)
  from C10_orphans_disabled [OF a demo_child_missing b, of 0 "[]" 0 0 9] a b demo_child_missing
  show ?thesis by simp
qed

section \<open>Removing orphans only shrinks the orphan pool\<close>

lemma forEachM_invariant:
  assumes "forEachM f xs s = Some s'" and "I s"
      and "\<And>x a b. x \<in> set xs \<Longrightarrow> I a \<Longrightarrow> f x a = Some b \<Longrightarrow> I b"
  shows "I s'"
  using assms
proof (induction xs arbitrary: s)
  case Nil
  then show ?case by simp
next
  case (Cons x xs)
  from Cons.prems(1) obtain s1 where s1: "f x s = Some s1" and rest: "forEachM f xs s1 = Some s'"
    by (auto split: option.splits)
  from Cons.prems(3) [OF _ Cons.prems(2) s1] have "I s1" by simp
  with rest show ?case using Cons.prems(3) by (intro Cons.IH) auto
qed

lemma unlinkPrev_fields [simp]:
  "pool (unlinkPrev h p s) = pool s" "orphans (unlinkPrev h p s) = orphans s"
  "outpoints (unlinkPrev h p s) = outpoints s" "lastUpdated (unlinkPrev h p s) = lastUpdated s"
  "pennyTotal (unlinkPrev h p s) = pennyTotal s" "lastPennyUnix (unlinkPrev h p s) = lastPennyUnix s"
  "nextExpireScan (unlinkPrev h p s) = nextExpireScan s"
  by (simp_all add: unlinkPrev_def Let_def split: option.splits)

lemma lookupPrev_unlinkPrev:
  "lookupPrev (unlinkPrev h p s) p' h' = (if p' = p \<and> h' = h then None else lookupPrev s p' h')"
proof (cases "orphansByPrev s p")
  case None
  then show ?thesis by (auto simp: lookupPrev_def unlinkPrev_def)
next
  case (Some m)
  show ?thesis
  proof (cases "dom (m(h := None)) = {}")
    case True
    have "m k = None" if "k \<noteq> h" for k
    proof -
      from True have "(m(h := None)) k = None" by (simp only: dom_eq_empty_conv)
      with that show ?thesis by simp
    qed
    moreover from Some True
    have "unlinkPrev h p s = s\<lparr>orphansByPrev := (orphansByPrev s)(p := None)\<rparr>"
      by (simp only: unlinkPrev_def Let_def option.case if_True refl)
    ultimately show ?thesis using Some by (auto simp: lookupPrev_def)
  next
    case False
    with Some
    have "unlinkPrev h p s = s\<lparr>orphansByPrev := (orphansByPrev s)(p \<mapsto> m(h := None))\<rparr>"
      by (simp only: unlinkPrev_def Let_def option.case if_False refl)
    then show ?thesis using Some by (auto simp: lookupPrev_def)
  qed
qed

lemma fold_unlinkPrev_fields [simp]:
  "pool (fold (unlinkPrev h) ps s) = pool s" "orphans (fold (unlinkPrev h) ps s) = orphans s"
  "outpoints (fold (unlinkPrev h) ps s) = outpoints s"
  "lastUpdated (fold (unlinkPrev h) ps s) = lastUpdated s"
  "pennyTotal (fold (unlinkPrev h) ps s) = pennyTotal s"
  "lastPennyUnix (fold (unlinkPrev h) ps s) = lastPennyUnix s"
  "nextExpireScan (fold (unlinkPrev h) ps s) = nextExpireScan s"
  by (induction ps arbitrary: s; simp)+

lemma lookupPrev_fold_unlinkPrev:
  "lookupPrev (fold (unlinkPrev h) ps s) p' h' =
     (if p' \<in> set ps \<and> h' = h then None else lookupPrev s p' h')"
  by (induction ps arbitrary: s) (auto simp: lookupPrev_unlinkPrev)

lemma lookupPrev_orphans_update [simp]:
  "lookupPrev (s\<lparr>orphans := x\<rparr>) = lookupPrev s"
  by (simp add: lookupPrev_def fun_eq_iff)

lemma orphanShrink_refl [simp]: "orphanShrink s s"
  by (simp add: orphanShrink_def)

lemma orphanShrink_trans: "orphanShrink a b \<Longrightarrow> orphanShrink b c \<Longrightarrow> orphanShrink a c"
  unfolding orphanShrink_def by metis

lemma orphanShrink_unlink: "orphanShrink s (fold (unlinkPrev h) ps s)"
  by (simp add: orphanShrink_def lookupPrev_fold_unlinkPrev)

lemma orphanShrink_delete: "orphanShrink s (s\<lparr>orphans := (orphans s)(h := None)\<rparr>)"
  by (simp add: orphanShrink_def)

lemma rangePrev_invariant:
  assumes "rangePrev ord p body s = Some s'" and "I s"
      and "\<And>h t a b. h \<in> set ord \<Longrightarrow> I a \<Longrightarrow> lookupPrev a p h = Some t \<Longrightarrow> body t a = Some b \<Longrightarrow> I b"
  shows "I s'"
  using assms(1) unfolding rangePrev_def
  by (rule forEachM_invariant [where I = I]) (use assms(2,3) in \<open>auto split: option.splits\<close>)

lemma removeRedeemersOf_invariant:
  assumes "removeRedeemersOf ord t body s = Some s'" and "I s"
      and "\<And>i h t' a b. i < length (txOut t) \<Longrightarrow> h \<in> set ord \<Longrightarrow> I a
             \<Longrightarrow> lookupPrev a (txHash t, i) h = Some t' \<Longrightarrow> body t' a = Some b \<Longrightarrow> I b"
  shows "I s'"
  using assms(1) unfolding removeRedeemersOf_def
proof (rule forEachM_invariant [where I = I])
  show "I s" by fact
next
  fix x a b
  assume "x \<in> set [0..<length (txOut t)]" "I a" "rangePrev ord (txHash t, x) body a = Some b"
  then show "I b"
    using assms(3) [of x] by (auto elim!: rangePrev_invariant [where I = I])
qed

lemma removeOrphan_Suc_Some:
  assumes "removeOrphan (Suc n) ord t rr s = Some s'" and "orphans s (txHash t) = Some ot"
  obtains s2 where
    "(if rr then removeRedeemersOf ord t (\<lambda>orphan s'. removeOrphan n ord orphan True s')
                   (fold (unlinkPrev (txHash t)) (txIn (otx ot)) s)
      else Some (fold (unlinkPrev (txHash t)) (txIn (otx ot)) s)) = Some s2"
    and "s' = s2\<lparr>orphans := (orphans s2)(txHash t := None)\<rparr>"
  using assms by (auto split: option.splits)

lemma removeOrphan_shrink:
  "removeOrphan n ord t rr s = Some s' \<Longrightarrow> orphanShrink s s'"
proof (induction n arbitrary: t rr s s')
  case 0
  then show ?case by simp
next
  case (Suc n)
  show ?case
  proof (cases "orphans s (txHash t)")
    case None
    with Suc.prems show ?thesis by simp
  next
    case (Some ot)
    let ?s1 = "fold (unlinkPrev (txHash t)) (txIn (otx ot)) s"
    have s1: "orphanShrink s ?s1" by (rule orphanShrink_unlink)
    from Suc.prems Some obtain s2 where
      loops: "(if rr then removeRedeemersOf ord t (\<lambda>orphan s'. removeOrphan n ord orphan True s') ?s1
               else Some ?s1) = Some s2"
      and s': "s' = s2\<lparr>orphans := (orphans s2)(txHash t := None)\<rparr>"
      by (rule removeOrphan_Suc_Some)
    have "orphanShrink ?s1 s2"
    proof (cases rr)
      case True
      with loops have "removeRedeemersOf ord t (\<lambda>orphan s'. removeOrphan n ord orphan True s') ?s1
                        = Some s2" by simp
      then show ?thesis
        by (rule removeRedeemersOf_invariant [where I = "orphanShrink ?s1"])
           (auto dest: Suc.IH intro: orphanShrink_trans)
    next
      case False
      with loops show ?thesis by simp
    qed
    with s1 have "orphanShrink s s2" by (rule orphanShrink_trans)
    moreover have "orphanShrink s2 s'" unfolding s' by (rule orphanShrink_delete)
    ultimately show ?thesis by (rule orphanShrink_trans)
  qed
qed

section \<open>Removing orphans keeps the orphan index\<close>

lemma orphanIndexed_lookup:
  assumes "orphanIndexed X s" and "lookupPrev s p h = Some t"
  shows "txHash t = h \<and> h \<notin> X \<and> p \<in> set (txIn t) \<and> (\<exists>ot. orphans s h = Some ot \<and> otx ot = t)"
  using assms unfolding orphanIndexed_def by blast

lemma orphanIndexed_unlink:
  assumes inv: "orphanIndexed X s" and h: "orphans s h = Some ot"
  shows "orphanIndexed (insert h X) (fold (unlinkPrev h) (txIn (otx ot)) s)"
proof -
  let ?s1 = "fold (unlinkPrev h) (txIn (otx ot)) s"
  have 1: "txHash (otx ot') = h'" if "orphans ?s1 h' = Some ot'" for h' ot'
    using that inv by (simp add: orphanIndexed_def)
  have 2: "lookupPrev ?s1 p h' = Some (otx ot')"
    if "orphans ?s1 h' = Some ot' \<and> h' \<notin> insert h X \<and> p \<in> set (txIn (otx ot'))" for h' ot' p
  proof -
    from that have f: "orphans s h' = Some ot'" "h' \<noteq> h" "h' \<notin> X" "p \<in> set (txIn (otx ot'))"
      by auto
    with inv have "lookupPrev s p h' = Some (otx ot')" unfolding orphanIndexed_def by blast
    with \<open>h' \<noteq> h\<close> show ?thesis by (simp add: lookupPrev_fold_unlinkPrev)
  qed
  have 3: "h' \<notin> insert h X \<and> p \<in> set (txIn t')
             \<and> (\<exists>ot'. orphans ?s1 h' = Some ot' \<and> otx ot' = t')"
    if "lookupPrev ?s1 p h' = Some t'" for p h' t'
  proof -
    from that have n: "\<not> (p \<in> set (txIn (otx ot)) \<and> h' = h)"
      and l: "lookupPrev s p h' = Some t'"
      by (auto simp: lookupPrev_fold_unlinkPrev split: if_splits)
    from orphanIndexed_lookup [OF inv l] obtain ot' where
      f: "h' \<notin> X" "p \<in> set (txIn t')" "orphans s h' = Some ot'" "otx ot' = t'" by blast
    have "h' \<noteq> h"
    proof
      assume "h' = h"
      with f h have "ot' = ot" by simp
      with f n \<open>h' = h\<close> show False by simp
    qed
    with f show ?thesis by simp
  qed
  from 1 2 3 show ?thesis unfolding orphanIndexed_def by blast
qed

lemma orphanIndexed_delete:
  assumes inv: "orphanIndexed (insert h X) s"
  shows "orphanIndexed X (s\<lparr>orphans := (orphans s)(h := None)\<rparr>)"
proof -
  let ?s1 = "s\<lparr>orphans := (orphans s)(h := None)\<rparr>"
  have 1: "txHash (otx ot') = h'" if "orphans ?s1 h' = Some ot'" for h' ot'
  proof -
    from that have "orphans s h' = Some ot'" by (simp split: if_splits)
    with inv show ?thesis by (simp add: orphanIndexed_def)
  qed
  have 2: "lookupPrev ?s1 p h' = Some (otx ot')"
    if "orphans ?s1 h' = Some ot' \<and> h' \<notin> X \<and> p \<in> set (txIn (otx ot'))" for h' ot' p
  proof -
    from that have "orphans s h' = Some ot'" "h' \<notin> insert h X" "p \<in> set (txIn (otx ot'))"
      by (auto split: if_splits)
    with inv have "lookupPrev s p h' = Some (otx ot')" unfolding orphanIndexed_def by blast
    then show ?thesis by simp
  qed
  have 3: "h' \<notin> X \<and> p \<in> set (txIn t') \<and> (\<exists>ot'. orphans ?s1 h' = Some ot' \<and> otx ot' = t')"
    if "lookupPrev ?s1 p h' = Some t'" for p h' t'
  proof -
    from that have l: "lookupPrev s p h' = Some t'" by simp
    from orphanIndexed_lookup [OF inv l] show ?thesis by auto
  qed
  from 1 2 3 show ?thesis unfolding orphanIndexed_def by blast
qed

lemma removeOrphan_indexed:
  fixes s :: "'f txPool"
  shows "orphanIndexed X s \<Longrightarrow> txHash t \<notin> X \<Longrightarrow> removeOrphan n ord t rr s = Some s'
   \<Longrightarrow> orphanIndexed X s'"
proof (induction n arbitrary: X t rr s s')
  case 0
  then show ?case by simp
next
  case (Suc n)
  show ?case
  proof (cases "orphans s (txHash t)")
    case None
    with Suc.prems show ?thesis by simp
  next
    case (Some ot)
    let ?h = "txHash t"
    let ?s1 = "fold (unlinkPrev ?h) (txIn (otx ot)) s"
    have s1: "orphanIndexed (insert ?h X) ?s1"
      using Suc.prems(1) Some by (rule orphanIndexed_unlink)
    from Suc.prems(3) Some obtain s2 where
      loops: "(if rr then removeRedeemersOf ord t (\<lambda>orphan s'. removeOrphan n ord orphan True s') ?s1
               else Some ?s1) = Some s2"
      and s': "s' = s2\<lparr>orphans := (orphans s2)(?h := None)\<rparr>"
      by (rule removeOrphan_Suc_Some)
    have "orphanIndexed (insert ?h X) s2"
    proof (cases rr)
      case True
      with loops have "removeRedeemersOf ord t (\<lambda>orphan s'. removeOrphan n ord orphan True s') ?s1
                        = Some s2" by simp
      then show ?thesis
      proof (rule removeRedeemersOf_invariant [where I = "orphanIndexed (insert ?h X)"])
        show "orphanIndexed (insert ?h X) ?s1" by (rule s1)
      next
        fix i h t' and a b :: "'f txPool"
        assume a: "orphanIndexed (insert ?h X) a" and l: "lookupPrev a (?h, i) h = Some t'"
          and r: "removeOrphan n ord t' True a = Some b"
        from orphanIndexed_lookup [OF a l] have "txHash t' \<notin> insert ?h X" by simp
        from Suc.IH [OF a this r] show "orphanIndexed (insert ?h X) b" .
      qed
    next
      case False
      with loops s1 show ?thesis by simp
    qed
    then show ?thesis unfolding s' by (rule orphanIndexed_delete)
  qed
qed

lemma removeOrphan_gone:
  assumes "removeOrphan n ord t rr s = Some s'"
  shows "orphans s' (txHash t) = None"
proof (cases n)
  case 0
  with assms show ?thesis by simp
next
  case (Suc m)
  show ?thesis
  proof (cases "orphans s (txHash t)")
    case None
    with assms Suc show ?thesis by simp
  next
    case (Some ot)
    from assms [unfolded Suc] Some obtain s2 where
      "s' = s2\<lparr>orphans := (orphans s2)(txHash t := None)\<rparr>"
      by (rule removeOrphan_Suc_Some)
    then show ?thesis by simp
  qed
qed

lemma orphanShrink_orphans:
  "orphanShrink s s' \<Longrightarrow> orphans s' h = None \<or> orphans s' h = orphans s h"
  by (simp add: orphanShrink_def)


lemma orphanShrink_dom:
  assumes "orphanShrink s s'"
  shows "dom (orphans s') \<subseteq> dom (orphans s)"
proof
  fix h
  assume "h \<in> dom (orphans s')"
  then obtain y where "orphans s' h = Some y" by auto
  with orphanShrink_orphans [OF assms, of h] have "orphans s h = Some y" by simp
  then show "h \<in> dom (orphans s)" by auto
qed


section \<open>The main pool and its spender index\<close>

lemma fold_delete_apply:
  "(fold (\<lambda>p m. m(p := None)) ps m) q = (if q \<in> set ps then None else m q)"
  by (induction ps arbitrary: m) auto

lemma fold_update_apply:
  "(fold (\<lambda>p m. m(p \<mapsto> t)) ps m) q = (if q \<in> set ps then Some t else m q)"
  by (induction ps arbitrary: m) auto

lemma poolIndexed_remove:
  assumes inv: "poolIndexed s" and d: "pool s h = Some txD"
  shows "poolIndexed (s\<lparr>outpoints := fold (\<lambda>p m. m(p := None)) (txIn (Tx txD)) (outpoints s),
                         pool := (pool s)(h := None), lastUpdated := u\<rparr>)"
  unfolding poolIndexed_def
proof (intro allI impI)
  fix h' d'
  assume "pool (s\<lparr>outpoints := fold (\<lambda>p m. m(p := None)) (txIn (Tx txD)) (outpoints s),
                         pool := (pool s)(h := None), lastUpdated := u\<rparr>) h' = Some d'"
  then have ne: "h' \<noteq> h" and d': "pool s h' = Some d'" by (auto split: if_splits)
  from inv d' have hd': "txHash (Tx d') = h'"
    and out': "\<And>p. p \<in> set (txIn (Tx d')) \<Longrightarrow> outpoints s p = Some (Tx d')"
    unfolding poolIndexed_def by blast+
  from inv d have hd: "txHash (Tx txD) = h"
    and out: "\<And>p. p \<in> set (txIn (Tx txD)) \<Longrightarrow> outpoints s p = Some (Tx txD)"
    unfolding poolIndexed_def by blast+
  have "p \<notin> set (txIn (Tx txD))" if "p \<in> set (txIn (Tx d'))" for p
  proof
    assume "p \<in> set (txIn (Tx txD))"
    with out out' that have "Tx d' = Tx txD" by fastforce
    with hd hd' ne show False by simp
  qed
  with hd' out'
  show "txHash (Tx d') = h' \<and>
        (\<forall>p\<in>set (txIn (Tx d')).
           outpoints (s\<lparr>outpoints := fold (\<lambda>p m. m(p := None)) (txIn (Tx txD)) (outpoints s),
                         pool := (pool s)(h := None), lastUpdated := u\<rparr>) p = Some (Tx d'))"
    by (simp add: fold_delete_apply)
qed

lemma poolShrink_refl [simp]: "poolShrink s s"
  by (simp add: poolShrink_def)

lemma poolShrink_trans: "poolShrink a b \<Longrightarrow> poolShrink b c \<Longrightarrow> poolShrink a c"
  by (simp add: poolShrink_def) blast

lemma removeTransaction_shrink:
  fixes s :: "'f txPool"
  shows "removeTransaction n now t rr s = Some s' \<Longrightarrow> poolShrink s s'"
proof (induction n arbitrary: t rr s s')
  case 0
  then show ?case by simp
next
  case (Suc n)
  let ?loop = "forEachM
                   (\<lambda>i s'. case outpoints s' (txHash t, i) of
                              None \<Rightarrow> Some s'
                            | Some txRedeemer \<Rightarrow> removeTransaction n now txRedeemer True s')
                   [0 ..< length (txOut t)] s"
  from Suc.prems obtain s1 where
    loop: "(if rr then ?loop else Some s) = Some s1"
    and fin: "(case pool s1 (txHash t) of
             None \<Rightarrow> Some s1
           | Some txD \<Rightarrow>
               Some (s1\<lparr>outpoints := fold (\<lambda>p m. m(p := None)) (txIn (Tx txD)) (outpoints s1),
                         pool := (pool s1)(txHash t := None),
                         lastUpdated := unixSeconds now\<rparr>)) = Some s'"
    by (auto split: option.splits)
  have 1: "poolShrink s s1"
  proof (cases rr)
    case True
    with loop have "?loop = Some s1" by simp
    then show ?thesis
      by (rule forEachM_invariant [where I = "poolShrink s"])
         (auto split: option.splits dest: Suc.IH intro: poolShrink_trans)
  next
    case False
    with loop show ?thesis by simp
  qed
  have 2: "poolShrink s1 s'"
  proof (cases "pool s1 (txHash t)")
    case None
    with fin show ?thesis by simp
  next
    case (Some txD)
    with fin have s': "s' = s1\<lparr>outpoints := fold (\<lambda>p m. m(p := None)) (txIn (Tx txD)) (outpoints s1),
                         pool := (pool s1)(txHash t := None),
                         lastUpdated := unixSeconds now\<rparr>" by simp
    show ?thesis unfolding poolShrink_def
      using poolIndexed_remove [OF _ Some, of "unixSeconds now"] by (auto simp: s')
  qed
  from 1 2 show ?case by (rule poolShrink_trans)
qed

lemma RemoveDoubleSpends_shrink:
  fixes s :: "'f txPool"
  assumes "RemoveDoubleSpends fuel now t s = Some s'"
  shows "poolShrink s s'"
  using assms unfolding RemoveDoubleSpends_def
  by (rule forEachM_invariant [where I = "poolShrink s"])
     (auto split: option.splits if_splits dest: removeTransaction_shrink intro: poolShrink_trans)

text \<open>The effect of \<open>maybeAcceptTransaction\<close> on the maps.\<close>

lemma checkPoolDoubleSpendLoop_None:
  "checkPoolDoubleSpendLoop s ps = None \<Longrightarrow> p \<in> set ps \<Longrightarrow> outpoints s p = None"
  by (induction ps) (auto split: option.splits)

lemma acceptChecks_no_spend:
  assumes "acceptChecks cfg E t rdo s = Inr (Inr x)" and "p \<in> set (txIn t)"
  shows "outpoints s p = None"
proof -
  from assms(1) have "checkPoolDoubleSpend s t = None"
    by (auto simp: acceptChecks_def split: if_splits option.splits sum.splits)
  from this assms(2) show ?thesis
    unfolding checkPoolDoubleSpend_def by (rule checkPoolDoubleSpendLoop_None)
qed

lemma maybeAccept_orphans:
  assumes "maybeAcceptTransaction cfg E t isNew rateLimit rdo s = (r, s')"
  shows "orphans s' = orphans s \<and> orphansByPrev s' = orphansByPrev s
       \<and> nextExpireScan s' = nextExpireScan s"
  using assms
  by (auto simp: maybeAcceptTransaction_def split: sum.splits option.splits prod.splits
      dest!: addTransaction_frame rateLimitFree_frame)

lemma maybeAccept_not_Accepted:
  assumes "maybeAcceptTransaction cfg E t isNew rateLimit rdo s = (r, s')"
      and "\<And>d. r \<noteq> Accepted d"
  shows "pool s' = pool s \<and> outpoints s' = outpoints s"
  using assms
  by (auto simp: maybeAcceptTransaction_def split: sum.splits option.splits prod.splits
      dest!: rateLimitFree_frame)

lemma maybeAccept_Accepted_maps:
  assumes "maybeAcceptTransaction cfg E t isNew rateLimit rdo s = (Accepted d, s')"
  shows "Tx d = t \<and> pool s (txHash t) = None \<and> (rdo \<longrightarrow> orphans s (txHash t) = None)
       \<and> (\<forall>p \<in> set (txIn t). outpoints s p = None)
       \<and> pool s' = (pool s)(txHash t \<mapsto> d)
       \<and> outpoints s' = fold (\<lambda>p m. m(p \<mapsto> t)) (txIn t) (outpoints s)"
proof -
  from maybeAccept_Accepted [OF assms] obtain v s1 where
    chk: "acceptChecks cfg E t rdo s = Inr (Inr (v, Fee d))"
    and rl: "rateLimitFree cfg E t rateLimit (Fee d) s = (None, s1)"
    and add: "addTransaction E v t (BestHeight E) (Fee d) s1 = (d, s')" by blast
  from rateLimitFree_frame [OF rl] have s1: "pool s1 = pool s" "outpoints s1 = outpoints s" by auto
  from add have "s' = s1\<lparr>pool := (pool s1)(txHash t \<mapsto> d),
            outpoints := fold (\<lambda>p m. m(p \<mapsto> t)) (txIn t) (outpoints s1),
            lastUpdated := unixSeconds (timeNow E)\<rparr>"
    by (auto simp: addTransaction_def Let_def)
  with s1 addTransaction_Fee [OF add] have "Tx d = t" "pool s' = (pool s)(txHash t \<mapsto> d)"
    "outpoints s' = fold (\<lambda>p m. m(p \<mapsto> t)) (txIn t) (outpoints s)"
    by simp_all
  with acceptChecks_not_dup [OF chk] acceptChecks_no_spend [OF chk] show ?thesis by simp
qed

lemma poolIndexed_add:
  assumes inv: "poolIndexed s" and d: "Tx d = t" and fresh: "\<forall>p \<in> set (txIn t). outpoints s p = None"
      and p': "pool s' = (pool s)(txHash t \<mapsto> d)"
      and o': "outpoints s' = fold (\<lambda>p m. m(p \<mapsto> t)) (txIn t) (outpoints s)"
  shows "poolIndexed s'"
  unfolding poolIndexed_def
proof (intro allI impI)
  fix h' d'
  assume a: "pool s' h' = Some d'"
  show "txHash (Tx d') = h' \<and> (\<forall>p\<in>set (txIn (Tx d')). outpoints s' p = Some (Tx d'))"
  proof (cases "h' = txHash t")
    case True
    with a p' d have "d' = d" by simp
    with d True show ?thesis by (simp add: o' fold_update_apply)
  next
    case False
    with a p' have old: "pool s h' = Some d'" by simp
    with inv have hd': "txHash (Tx d') = h'"
      and out': "\<And>p. p \<in> set (txIn (Tx d')) \<Longrightarrow> outpoints s p = Some (Tx d')"
      unfolding poolIndexed_def by blast+
    have "p \<notin> set (txIn t)" if "p \<in> set (txIn (Tx d'))" for p
      using out' [OF that] fresh by auto
    with hd' out' show ?thesis by (simp add: o' fold_update_apply)
  qed
qed

section \<open>The invariant of the pool is kept by every removal of orphans\<close>

lemma poolIndexed_cong:
  "pool s' = pool s \<Longrightarrow> outpoints s' = outpoints s \<Longrightarrow> poolIndexed s' = poolIndexed s"
  by (simp add: poolIndexed_def)

lemma lookupPrev_cong:
  assumes "orphansByPrev s' = orphansByPrev s"
  shows "lookupPrev s' = lookupPrev s"
proof (intro ext)
  fix p h
  show "lookupPrev s' p h = lookupPrev s p h" by (simp only: lookupPrev_def assms)
qed

lemma orphanIndexed_cong:
  assumes "orphans s' = orphans s" and "orphansByPrev s' = orphansByPrev s"
  shows "orphanIndexed X s' = orphanIndexed X s"
  by (simp only: orphanIndexed_def assms(1) lookupPrev_cong [OF assms(2)])

lemma poolInv_removeOrphan:
  assumes inv: "poolInv s" and run: "removeOrphan n ord t rr s = Some s'"
  shows "poolInv s'"
proof -
  from removeOrphan_shrink [OF run] have sh: "orphanShrink s s'" .
  then have eq: "pool s' = pool s" "outpoints s' = outpoints s" by (simp_all add: orphanShrink_def)
  from orphanShrink_dom [OF sh] have sub: "dom (orphans s') \<subseteq> dom (orphans s)" .
  from inv have "orphanIndexed {} s" by (simp add: poolInv_def)
  then have "orphanIndexed {} s'" using _ run by (rule removeOrphan_indexed) simp
  moreover from inv poolIndexed_cong [OF eq] have "poolIndexed s'" by (simp add: poolInv_def)
  moreover from inv eq sub have "dom (pool s') \<inter> dom (orphans s') = {}"
    by (auto simp: poolInv_def)
  moreover from inv sub have "finite (dom (orphans s'))"
    by (auto simp: poolInv_def intro: finite_subset)
  ultimately show ?thesis by (simp add: poolInv_def)
qed

lemma poolInv_poolShrink:
  assumes inv: "poolInv s" and sh: "poolShrink s s'"
  shows "poolInv s'"
proof -
  from sh have eq: "orphans s' = orphans s" "orphansByPrev s' = orphansByPrev s"
    and sub: "dom (pool s') \<subseteq> dom (pool s)" and ix: "poolIndexed s \<longrightarrow> poolIndexed s'"
    by (simp_all add: poolShrink_def)
  from inv orphanIndexed_cong [OF eq] have "orphanIndexed {} s'" by (simp add: poolInv_def)
  moreover from inv ix have "poolIndexed s'" by (simp add: poolInv_def)
  moreover from inv eq sub have "dom (pool s') \<inter> dom (orphans s') = {}"
    by (auto simp: poolInv_def)
  moreover from inv eq have "finite (dom (orphans s'))" by (simp add: poolInv_def)
  ultimately show ?thesis by (simp add: poolInv_def)
qed

lemma poolInv_rangePrev:
  assumes "rangePrev ord p (\<lambda>orphan s'. removeOrphan fuel ord orphan True s') s = Some s'"
      and "poolInv s"
  shows "poolInv s'"
  using assms
proof (rule rangePrev_invariant [where I = poolInv])
  fix h t and a b :: "'a txPool"
  assume "poolInv a" "removeOrphan fuel ord t True a = Some b"
  then show "poolInv b" by (rule poolInv_removeOrphan)
qed

lemma poolInv_removeOrphanDoubleSpends:
  assumes "removeOrphanDoubleSpends fuel ord t s = Some s'" and "poolInv s"
  shows "poolInv s'"
  using assms unfolding removeOrphanDoubleSpends_def
proof (rule forEachM_invariant [where I = poolInv])
  fix x and a b :: "'a txPool"
  assume "poolInv a"
    "rangePrev ord x (\<lambda>orphan s'. removeOrphan fuel ord orphan True s') a = Some b"
  then show "poolInv b" by (rule poolInv_rangePrev [rotated])
qed

lemma poolInv_expireOrphans:
  assumes "expireOrphans fuel ord now s = Some s'" and "poolInv s"
  shows "poolInv s'"
  using assms unfolding expireOrphans_def
proof (rule forEachM_invariant [where I = poolInv])
  fix x and a b :: "'a txPool"
  assume a: "poolInv a"
    and "(case orphans a x of None \<Rightarrow> Some a
          | Some ot \<Rightarrow> if expiration ot < now then removeOrphan fuel ord (otx ot) True a
                       else Some a) = Some b"
  then have "b = a \<or> (\<exists>ot :: orphanTx. removeOrphan fuel ord (otx ot) True a = Some b)"
    by (auto split: option.splits if_splits)
  then show "poolInv b"
  proof (elim disjE exE)
    assume "b = a"
    with a show ?thesis by simp
  next
    fix ot :: orphanTx
    assume "removeOrphan fuel ord (otx ot) True a = Some b"
    with a show ?thesis by (rule poolInv_removeOrphan)
  qed
qed

lemma poolInv_fields:
  assumes "pool s' = pool s" "outpoints s' = outpoints s" "orphans s' = orphans s"
    "orphansByPrev s' = orphansByPrev s"
  shows "poolInv s' = poolInv s"
  using poolIndexed_cong [OF assms(1,2)] orphanIndexed_cong [OF assms(3,4)] assms
  by (simp add: poolInv_def)

lemma poolInv_expireScan:
  assumes "expireScan fuel ord now s = Some s'" and "poolInv s"
  shows "poolInv s'"
proof (cases "now > nextExpireScan s")
  case True
  with assms(1) obtain s1 where s1: "expireOrphans fuel ord now s = Some s1"
    and s': "s' = s1\<lparr>nextExpireScan := now + orphanExpireScanInterval\<rparr>"
    by (auto simp: expireScan_def split: option.splits)
  from poolInv_expireOrphans [OF s1 assms(2)] show ?thesis
    unfolding s' by (subst poolInv_fields [where s = s1]) simp_all
next
  case False
  with assms show ?thesis by (simp add: expireScan_def)
qed

lemma poolInv_evictOne:
  "evictOne fuel ord hs s = Some s' \<Longrightarrow> poolInv s \<Longrightarrow> poolInv s'"
proof (induction hs)
  case Nil
  then show ?case by simp
next
  case (Cons h hs)
  show ?case
  proof (cases "orphans s h")
    case None
    with Cons show ?thesis by simp
  next
    case (Some ot)
    with Cons.prems(1) have "removeOrphan fuel ord (otx ot) False s = Some s'" by simp
    with Cons.prems(2) show ?thesis by (rule poolInv_removeOrphan)
  qed
qed

lemma poolInv_limitNumOrphans:
  assumes "limitNumOrphans fuel ord cfg now s = Some s'" and "poolInv s"
  shows "poolInv s'"
proof -
  from assms(1) obtain s1 where s1: "expireScan fuel ord now s = Some s1"
    and r: "s' = s1 \<or> evictOne fuel ord ord s1 = Some s'"
    by (auto simp: limitNumOrphans_def split: option.splits if_splits)
  from poolInv_expireScan [OF s1 assms(2)] have "poolInv s1" .
  with r show ?thesis using poolInv_evictOne by blast
qed

lemma poolInv_RemoveOrphansByTag:
  assumes "RemoveOrphansByTag fuel ord tg s = Some (n, s')" and "poolInv s"
  shows "poolInv s'"
proof -
  from assms(1) have "poolInv (snd (n, s'))"
    unfolding RemoveOrphansByTag_def
  proof (rule forEachM_invariant [where I = "\<lambda>x. poolInv (snd x)"])
    show "poolInv (snd (0, s))" using assms(2) by simp
  next
    fix x and a b :: "nat \<times> 'a txPool"
    assume a: "poolInv (snd a)"
      and "(case a of
            (numEvicted, s') \<Rightarrow>
              case orphans s' x of None \<Rightarrow> Some (numEvicted, s')
              | Some ot \<Rightarrow>
                  if tag ot = tg
                  then case removeOrphan fuel ord (otx ot) True s' of None \<Rightarrow> None
                       | Some s'' \<Rightarrow> Some (numEvicted + 1, s'')
                  else Some (numEvicted, s')) = Some b"
    then have "snd b = snd a
      \<or> (\<exists>ot :: orphanTx. removeOrphan fuel ord (otx ot) True (snd a) = Some (snd b))"
      by (auto split: option.splits if_splits prod.splits)
    then show "poolInv (snd b)"
    proof (elim disjE exE)
      assume "snd b = snd a"
      with a show ?thesis by simp
    next
      fix ot :: orphanTx
      assume "removeOrphan fuel ord (otx ot) True (snd a) = Some (snd b)"
      with a show ?thesis by (rule poolInv_removeOrphan)
    qed
  qed
  then show ?thesis by simp
qed

section \<open>The invariant of the pool is kept by acceptance and promotion\<close>

lemma poolInv_maybeAccept_other:
  assumes inv: "poolInv s"
      and run: "maybeAcceptTransaction cfg E t isNew rateLimit rdo s = (r, s')"
      and r: "\<And>d. r \<noteq> Accepted d"
  shows "poolInv s'"
proof -
  from maybeAccept_orphans [OF run] maybeAccept_not_Accepted [OF run r]
  have "pool s' = pool s" "outpoints s' = outpoints s" "orphans s' = orphans s"
    "orphansByPrev s' = orphansByPrev s" by simp_all
  from poolInv_fields [OF this] inv show ?thesis by simp
qed

lemma poolInv_maybeAccept_remove:
  assumes inv: "poolInv s"
      and run: "maybeAcceptTransaction cfg E t isNew rateLimit rdo s = (Accepted d, sa)"
      and gone: "orphanShrink sa sb" "orphanIndexed {} sa \<longrightarrow> orphanIndexed {} sb"
        "orphans sb (txHash t) = None"
  shows "poolInv sb"
proof -
  from maybeAccept_orphans [OF run]
  have o: "orphans sa = orphans s" "orphansByPrev sa = orphansByPrev s" by simp_all
  from maybeAccept_Accepted_maps [OF run]
  have m: "Tx d = t" "\<forall>p \<in> set (txIn t). outpoints s p = None"
    "pool sa = (pool s)(txHash t \<mapsto> d)"
    "outpoints sa = fold (\<lambda>p m. m(p \<mapsto> t)) (txIn t) (outpoints s)" by simp_all
  from inv have "poolIndexed s" by (simp add: poolInv_def)
  from poolIndexed_add [OF this m] have "poolIndexed sa" .
  moreover from gone(1) have eq: "pool sb = pool sa" "outpoints sb = outpoints sa"
    by (simp_all add: orphanShrink_def)
  ultimately have 1: "poolIndexed sb" using poolIndexed_cong [OF eq] by simp
  from inv orphanIndexed_cong [OF o] have "orphanIndexed {} sa" by (simp add: poolInv_def)
  with gone(2) have 2: "orphanIndexed {} sb" by simp
  from orphanShrink_dom [OF gone(1)] o have sub: "dom (orphans sb) \<subseteq> dom (orphans s)" by simp
  with inv have 3: "finite (dom (orphans sb))" by (auto simp: poolInv_def intro: finite_subset)
  from inv have "dom (pool s) \<inter> dom (orphans s) = {}" by (simp add: poolInv_def)
  with sub gone(3) eq m(3) have 4: "dom (pool sb) \<inter> dom (orphans sb) = {}" by auto
  from 1 2 3 4 show ?thesis by (simp add: poolInv_def)
qed

lemma poolInv_MaybeAcceptTransaction:
  assumes inv: "poolInv s"
      and run: "maybeAcceptTransaction cfg E t isNew rateLimit True s = (r, s')"
  shows "poolInv s'"
proof (cases "\<exists>d. r = Accepted d")
  case True
  then obtain d where r: "r = Accepted d" by blast
  from maybeAccept_Accepted_maps [OF run [unfolded r]] maybeAccept_orphans [OF run]
  have "orphans s' (txHash t) = None" by simp
  with poolInv_maybeAccept_remove [OF inv run [unfolded r], of s'] show ?thesis by simp
next
  case False
  with poolInv_maybeAccept_other [OF inv run] show ?thesis by blast
qed

lemma poolInv_tryRedeemers:
  fixes s :: "'f txPool"
  shows "tryRedeemers fuel ord cfg E p hs (s, acc, q) = Some (s', acc', q') \<Longrightarrow> poolInv s
         \<Longrightarrow> poolInv s'"
proof (induction hs arbitrary: s)
  case Nil
  then show ?case by simp
next
  case (Cons h hs)
  show ?case
  proof (cases "lookupPrev s p h")
    case None
    with Cons show ?thesis by simp
  next
    case (Some t)
    obtain r sa where run: "maybeAcceptTransaction cfg E t True True False s = (r, sa)"
      by (cases "maybeAcceptTransaction cfg E t True True False s") auto
    show ?thesis
    proof (cases r)
      case (Rejected err)
      with Cons.prems(1) Some run have rm: "removeOrphan fuel ord t True sa = Some s'"
        by (auto split: option.splits)
      from poolInv_maybeAccept_other [OF Cons.prems(2) run] Rejected have "poolInv sa" by simp
      then show ?thesis using rm by (rule poolInv_removeOrphan)
    next
      case (MissingParents ms)
      with Cons.prems(1) Some run
      have rest: "tryRedeemers fuel ord cfg E p hs (sa, acc, q) = Some (s', acc', q')" by simp
      from poolInv_maybeAccept_other [OF Cons.prems(2) run] MissingParents have "poolInv sa"
        by simp
      with rest show ?thesis by (rule Cons.IH)
    next
      case (Accepted d)
      with Cons.prems(1) Some run have rm: "removeOrphan fuel ord t False sa = Some s'"
        by (auto split: option.splits)
      show ?thesis
      proof (rule poolInv_maybeAccept_remove [OF Cons.prems(2) run [unfolded Accepted]])
        show "orphanShrink sa s'" using rm by (rule removeOrphan_shrink)
        show "orphanIndexed {} sa \<longrightarrow> orphanIndexed {} s'"
          using removeOrphan_indexed [OF _ _ rm, of "{}"] by simp
        show "orphans s' (txHash t) = None" using rm by (rule removeOrphan_gone)
      qed
    qed
  qed
qed

lemma poolInv_processLoop:
  fixes s :: "'f txPool"
  shows "processLoop k fuel ord cfg E q (s, acc) = Some (s', acc') \<Longrightarrow> poolInv s \<Longrightarrow> poolInv s'"
proof (induction k arbitrary: q s acc)
  case 0
  then show ?case by simp
next
  case (Suc k)
  show ?case
  proof (cases q)
    case Nil
    with Suc.prems show ?thesis by simp
  next
    case (Cons item rest)
    with Suc.prems(1) obtain s1 acc1 q1 where
      loop: "forEachM
             (\<lambda>txOutIdx. tryRedeemers fuel ord cfg E (txHash item, txOutIdx) ord)
             [0 ..< length (txOut item)] (s, acc, rest) = Some (s1, acc1, q1)"
      and nxt: "processLoop k fuel ord cfg E q1 (s1, acc1) = Some (s', acc')"
      by (auto split: option.splits prod.splits)
    from loop have "poolInv (fst (s1, acc1, q1))"
    proof (rule forEachM_invariant [where I = "\<lambda>x. poolInv (fst x)"])
      show "poolInv (fst (s, acc, rest))" using Suc.prems(2) by simp
    next
      fix x and a b :: "'f txPool \<times> 'f txDesc list \<times> tx list"
      assume "poolInv (fst a)" "tryRedeemers fuel ord cfg E (txHash item, x) ord a = Some b"
      then show "poolInv (fst b)"
        by (cases a; cases b) (auto dest: poolInv_tryRedeemers)
    qed
    then have "poolInv s1" by simp
    with nxt show ?thesis by (rule Suc.IH)
  qed
qed

lemma poolInv_processOrphans:
  assumes "processOrphans fuel ord cfg E t s = Some (acc, s')" and "poolInv s"
  shows "poolInv s'"
proof -
  from assms(1) obtain s1 where
    loop: "processLoop fuel fuel ord cfg E [t] (s, []) = Some (s1, acc)"
    and ds: "forEachM (removeOrphanDoubleSpends fuel ord) (t # map Tx acc) s1 = Some s'"
    by (auto simp: processOrphans_def split: option.splits prod.splits)
  from poolInv_processLoop [OF loop assms(2)] have "poolInv s1" .
  with ds show ?thesis
    by (rule forEachM_invariant [where I = poolInv]) (rule poolInv_removeOrphanDoubleSpends)
qed

section \<open>The invariant of the pool holds in every reachable state\<close>

lemma linkPrev_fields [simp]:
  "pool (linkPrev t p s) = pool s" "orphans (linkPrev t p s) = orphans s"
  "outpoints (linkPrev t p s) = outpoints s" "lastUpdated (linkPrev t p s) = lastUpdated s"
  "pennyTotal (linkPrev t p s) = pennyTotal s" "lastPennyUnix (linkPrev t p s) = lastPennyUnix s"
  "nextExpireScan (linkPrev t p s) = nextExpireScan s"
  by (simp_all add: linkPrev_def)

lemma lookupPrev_linkPrev:
  "lookupPrev (linkPrev t p s) p' h' =
     (if p' = p \<and> h' = txHash t then Some t else lookupPrev s p' h')"
  by (auto simp: lookupPrev_def linkPrev_def split: option.splits)

lemma fold_linkPrev_fields [simp]:
  "pool (fold (linkPrev t) ps s) = pool s" "orphans (fold (linkPrev t) ps s) = orphans s"
  "outpoints (fold (linkPrev t) ps s) = outpoints s"
  "lastUpdated (fold (linkPrev t) ps s) = lastUpdated s"
  "pennyTotal (fold (linkPrev t) ps s) = pennyTotal s"
  "lastPennyUnix (fold (linkPrev t) ps s) = lastPennyUnix s"
  "nextExpireScan (fold (linkPrev t) ps s) = nextExpireScan s"
  by (induction ps arbitrary: s; simp)+

lemma lookupPrev_fold_linkPrev:
  "lookupPrev (fold (linkPrev t) ps s) p' h' =
     (if p' \<in> set ps \<and> h' = txHash t then Some t else lookupPrev s p' h')"
  by (induction ps arbitrary: s) (auto simp: lookupPrev_linkPrev)

lemma lookupPrev_nextExpireScan_update [simp]:
  "lookupPrev (s\<lparr>nextExpireScan := x\<rparr>) = lookupPrev s"
  by (simp add: lookupPrev_def fun_eq_iff)

lemma orphanIndexed_add:
  assumes inv: "orphanIndexed {} s" and fresh: "orphans s (txHash t) = None"
  shows "orphanIndexed {}
           (fold (linkPrev t) (txIn t)
              (s\<lparr>orphans := (orphans s)(txHash t \<mapsto> \<lparr>otx = t, tag = tg, expiration = e\<rparr>)\<rparr>))"
proof -
  let ?new = "\<lparr>otx = t, tag = tg, expiration = e\<rparr>"
  let ?s1 = "fold (linkPrev t) (txIn t) (s\<lparr>orphans := (orphans s)(txHash t \<mapsto> ?new)\<rparr>)"
  have o: "orphans ?s1 = (orphans s)(txHash t \<mapsto> ?new)" by simp
  have l: "lookupPrev ?s1 p h =
             (if p \<in> set (txIn t) \<and> h = txHash t then Some t else lookupPrev s p h)" for p h
    by (simp add: lookupPrev_fold_linkPrev)
  have 1: "txHash (otx ot') = h'" if "orphans ?s1 h' = Some ot'" for h' ot'
  proof (cases "h' = txHash t")
    case True
    with that o show ?thesis by auto
  next
    case False
    with that o have "orphans s h' = Some ot'" by simp
    with inv show ?thesis by (simp add: orphanIndexed_def)
  qed
  have 2: "lookupPrev ?s1 p h' = Some (otx ot')"
    if "orphans ?s1 h' = Some ot' \<and> h' \<notin> {} \<and> p \<in> set (txIn (otx ot'))" for h' ot' p
  proof (cases "h' = txHash t")
    case True
    with that o have "ot' = ?new" by auto
    with that True show ?thesis by (simp add: l)
  next
    case False
    with that o have "orphans s h' = Some ot'" "p \<in> set (txIn (otx ot'))" by simp_all
    with inv have "lookupPrev s p h' = Some (otx ot')" unfolding orphanIndexed_def by blast
    with False show ?thesis by (simp add: l)
  qed
  have 3: "h' \<notin> {} \<and> p \<in> set (txIn t')
             \<and> (\<exists>ot'. orphans ?s1 h' = Some ot' \<and> otx ot' = t')"
    if "lookupPrev ?s1 p h' = Some t'" for p h' t'
  proof (cases "p \<in> set (txIn t) \<and> h' = txHash t")
    case True
    with that have "t' = t" by (simp add: l)
    with True o show ?thesis by simp
  next
    case False
    with that have old: "lookupPrev s p h' = Some t'" by (simp add: l)
    from orphanIndexed_lookup [OF inv old] obtain ot' where
      f: "p \<in> set (txIn t')" "orphans s h' = Some ot'" "otx ot' = t'" by blast
    with fresh have "h' \<noteq> txHash t" by auto
    with f o show ?thesis by simp
  qed
  from 1 2 3 show ?thesis unfolding orphanIndexed_def by blast
qed

lemma orphanShrink_expireOrphans:
  assumes "expireOrphans fuel ord now s = Some s'"
  shows "orphanShrink s s'"
  using assms unfolding expireOrphans_def
proof (rule forEachM_invariant [where I = "orphanShrink s"])
  show "orphanShrink s s" by simp
next
  fix x and a b :: "'a txPool"
  assume a: "orphanShrink s a"
    and "(case orphans a x of None \<Rightarrow> Some a
          | Some ot \<Rightarrow> if expiration ot < now then removeOrphan fuel ord (otx ot) True a
                       else Some a) = Some b"
  then have "b = a \<or> (\<exists>ot :: orphanTx. removeOrphan fuel ord (otx ot) True a = Some b)"
    by (auto split: option.splits if_splits)
  then have "orphanShrink a b" by (auto dest: removeOrphan_shrink)
  with a show "orphanShrink s b" by (rule orphanShrink_trans)
qed

lemma orphanShrink_evictOne:
  "evictOne fuel ord hs s = Some s' \<Longrightarrow> orphanShrink s s'"
  by (induction hs) (auto split: option.splits dest: removeOrphan_shrink)

lemma orphanShrink_nextExpireScan:
  "orphanShrink s s' \<Longrightarrow> orphanShrink (s\<lparr>nextExpireScan := x\<rparr>) (s'\<lparr>nextExpireScan := x\<rparr>)"
  by (simp add: orphanShrink_def)

lemma orphanShrink_expireScan:
  assumes "expireScan fuel ord now s = Some s'"
  shows "orphanShrink (s\<lparr>nextExpireScan := nextExpireScan s'\<rparr>) s'"
proof (cases "now > nextExpireScan s")
  case True
  with assms obtain s1 where s1: "expireOrphans fuel ord now s = Some s1"
    and s': "s' = s1\<lparr>nextExpireScan := now + orphanExpireScanInterval\<rparr>"
    by (auto simp: expireScan_def split: option.splits)
  from orphanShrink_nextExpireScan [OF orphanShrink_expireOrphans [OF s1]]
  show ?thesis unfolding s' by simp
next
  case False
  with assms show ?thesis by (simp add: expireScan_def)
qed

lemma orphanShrink_limitNumOrphans:
  assumes "limitNumOrphans fuel ord cfg now s = Some s'"
  shows "orphanShrink (s\<lparr>nextExpireScan := nextExpireScan s'\<rparr>) s'"
proof -
  from assms obtain s1 where s1: "expireScan fuel ord now s = Some s1"
    and r: "s' = s1 \<or> evictOne fuel ord ord s1 = Some s'"
    by (auto simp: limitNumOrphans_def split: option.splits if_splits)
  from r have sh: "orphanShrink s1 s'" by (auto dest: orphanShrink_evictOne)
  then have "nextExpireScan s' = nextExpireScan s1" by (simp add: orphanShrink_def)
  with orphanShrink_expireScan [OF s1] sh show ?thesis by (auto intro: orphanShrink_trans)
qed

lemma poolInv_addOrphan:
  assumes inv: "poolInv s" and fresh: "pool s (txHash t) = None" "orphans s (txHash t) = None"
      and run: "addOrphan fuel ord cfg now now' t tg s = Some s'"
  shows "poolInv s'"
proof (cases "MaxOrphanTxs (Policy cfg) \<le> 0")
  case True
  with run inv show ?thesis by (simp add: addOrphan_def)
next
  case False
  let ?new = "\<lparr>otx = t, tag = tg, expiration = now' + orphanTTL\<rparr>"
  from False run obtain s1 where lim: "limitNumOrphans fuel ord cfg now s = Some s1"
    and s': "s' = fold (linkPrev t) (txIn t) (s1\<lparr>orphans := (orphans s1)(txHash t \<mapsto> ?new)\<rparr>)"
    by (auto simp: addOrphan_def split: option.splits)
  from poolInv_limitNumOrphans [OF lim inv] have inv1: "poolInv s1" .
  from orphanShrink_limitNumOrphans [OF lim]
  have p1: "pool s1 = pool s" and o1: "orphans s1 (txHash t) = None"
    using fresh(2) by (auto simp: orphanShrink_def)
  from inv1 have "orphanIndexed {} s1" by (simp add: poolInv_def)
  from orphanIndexed_add [OF this o1] have 1: "orphanIndexed {} s'" unfolding s' .
  have "pool s' = pool s1" "outpoints s' = outpoints s1" by (simp_all add: s')
  from poolIndexed_cong [OF this] inv1 have 2: "poolIndexed s'" by (simp add: poolInv_def)
  have d: "dom (orphans s') = insert (txHash t) (dom (orphans s1))" by (simp add: s')
  with inv1 have 3: "finite (dom (orphans s'))" by (simp add: poolInv_def)
  from inv1 have "dom (pool s1) \<inter> dom (orphans s1) = {}" by (simp add: poolInv_def)
  with d p1 fresh(1) have 4: "dom (pool s') \<inter> dom (orphans s') = {}" by (auto simp: s')
  from 1 2 3 4 show ?thesis by (simp add: poolInv_def)
qed

lemma poolInv_ProcessTransaction:
  assumes inv: "poolInv s"
      and run: "ProcessTransaction fuel ord cfg E now now' t allowOrphan rateLimit tg s = Some (r, s')"
  shows "poolInv s'"
proof -
  obtain r1 s1 where acc: "maybeAcceptTransaction cfg E t True rateLimit True s = (r1, s1)"
    by (cases "maybeAcceptTransaction cfg E t True rateLimit True s") auto
  from poolInv_MaybeAcceptTransaction [OF inv acc] have inv1: "poolInv s1" .
  show ?thesis
  proof (cases r1)
    case (Rejected err)
    with run acc inv1 show ?thesis by (simp add: ProcessTransaction_def)
  next
    case (Accepted d)
    with run acc obtain newTxs where "processOrphans fuel ord cfg E t s1 = Some (newTxs, s')"
      by (auto simp: ProcessTransaction_def split: option.splits)
    then show ?thesis using inv1 by (rule poolInv_processOrphans)
  next
    case (MissingParents ms)
    from maybeAccept_Missing [OF acc [unfolded MissingParents]]
    have s1: "s1 = s" and chk: "acceptChecks cfg E t True s = Inr (Inl ms)" by simp_all
    from acceptChecks_not_dup [OF chk]
    have fresh: "pool s (txHash t) = None" "orphans s (txHash t) = None" by simp_all
    from run acc MissingParents s1
    have "s' = s \<or> addOrphan fuel ord cfg now now' t tg s = Some s'"
      by (auto simp: ProcessTransaction_def maybeAddOrphan_def split: if_splits option.splits)
    with inv poolInv_addOrphan [OF inv fresh] show ?thesis by blast
  qed
qed

lemma poolInv_New: "poolInv (New E now)"
  by (simp add: poolInv_def New_def poolIndexed_def orphanIndexed_def lookupPrev_def)

lemma reachable_poolInv: "reachable cfg envs s \<Longrightarrow> poolInv s"
proof (induction rule: reachable.induct)
  case (r_New E now)
  show ?case by (rule poolInv_New)
next
  case (r_RemoveOrphan s ord fuel t s')
  then show ?case by (auto simp: RemoveOrphan_def dest: poolInv_removeOrphan)
next
  case (r_RemoveOrphansByTag s ord fuel tg n s')
  then show ?case by (auto dest: poolInv_RemoveOrphansByTag)
next
  case (r_RemoveTransaction s fuel now t removeRedeemers s')
  then show ?case
    by (auto simp: RemoveTransaction_def dest!: removeTransaction_shrink intro: poolInv_poolShrink)
next
  case (r_RemoveDoubleSpends s fuel now t s')
  then show ?case by (auto dest!: RemoveDoubleSpends_shrink intro: poolInv_poolShrink)
next
  case (r_MaybeAcceptTransaction s E t isNew rateLimit r s')
  then show ?case by (auto simp: MaybeAcceptTransaction_def dest: poolInv_MaybeAcceptTransaction)
next
  case (r_ProcessOrphans s E ord fuel t acceptedTxns s')
  then show ?case by (auto simp: ProcessOrphans_def dest: poolInv_processOrphans)
next
  case (r_ProcessTransaction s E ord fuel now now' t allowOrphan rateLimit tg r s')
  then show ?case by (auto dest: poolInv_ProcessTransaction)
qed

section \<open>The spender index and the disjointness of pool and orphan pool\<close>

lemmas orphan_defs = ProcessTransaction_def maybeAddOrphan_def addOrphan_def limitNumOrphans_def
  expireScan_def expireOrphans_def linkPrev_def orphanTTL_def orphanExpireScanInterval_def
  unlinkPrev_def lookupPrev_def rangePrev_def removeRedeemersOf_def processOrphans_def
  removeOrphanDoubleSpends_def eval_nat_numeral

lemma demo_accept_parent:
  "MaybeAcceptTransaction (demoCfg 1) (demoEnv 1000 0) txParent True True demoPool
     = (Accepted (demoDesc txParent), demoPoolP)"
  by (simp add: MaybeAcceptTransaction_def maybeAcceptTransaction_def demo_parent_checks [of _ _ _ _ 0, simplified]
      demo_parent_feeChecks)
     (simp add: demo_defs accept_defs demoPoolP_def demoDesc_def Let_def)

lemma demo_stray_missing:
  "maybeAcceptTransaction (demoCfg 1) (demoEnv 1000 0) txStray True True True demoPoolP
     = (MissingParents [9], demoPoolP)"
  by (simp add: maybeAcceptTransaction_def demo_defs accept_defs demoPoolP_def txStray_def)

lemma demo_add_stray:
  "ProcessTransaction 5 [5] (demoCfg 1) (demoEnv 1000 0) 0 0 txStray True True 7 demoPoolP
   = Some (Inr [], demoPoolMixed)"
  by (simp add: ProcessTransaction_def demo_stray_missing)
     (simp add: orphan_defs demo_defs demoPoolP_def demoPoolMixed_def demoOrphan_def txStray_def)

lemma demo_reachable_mixed: "reachable (demoCfg 1) {demoEnv 1000 0} demoPoolMixed"
proof -
  have "reachable (demoCfg 1) {demoEnv 1000 0} demoPool"
    unfolding demoPool_def by (rule r_New) simp
  then have "reachable (demoCfg 1) {demoEnv 1000 0} demoPoolP"
    using _ demo_accept_parent by (rule r_MaybeAcceptTransaction) simp
  then show ?thesis
    using _ _ demo_add_stray by (rule r_ProcessTransaction) (simp_all add: demoPoolP_def demo_defs)
qed

text \<open>
  Claim C1. In every state of the pool reachable through the public methods, every
  input outpoint of every transaction in \<open>pool\<close> is a key of \<open>outpoints\<close> whose value
  is a transaction with the hash under which the pool holds the spender, and no two
  distinct pool transactions have an input with the same outpoint.
\<close>

theorem C1_pool_spender_index:
  assumes "reachable cfg envs s"
  shows "(\<forall>h d p. pool s h = Some d \<and> p \<in> set (txIn (Tx d))
            \<longrightarrow> (\<exists>t. outpoints s p = Some t \<and> txHash t = h))
       \<and> (\<forall>h1 d1 h2 d2 p. pool s h1 = Some d1 \<and> pool s h2 = Some d2
              \<and> p \<in> set (txIn (Tx d1)) \<and> p \<in> set (txIn (Tx d2))
            \<longrightarrow> h1 = h2)"
proof -
  from reachable_poolInv [OF assms] have ix: "poolIndexed s" by (simp add: poolInv_def)
  have a: "outpoints s p = Some (Tx d) \<and> txHash (Tx d) = h"
    if "pool s h = Some d" "p \<in> set (txIn (Tx d))" for h d p
    using ix that unfolding poolIndexed_def by blast
  show ?thesis
  proof (intro conjI allI impI)
    fix h d p
    assume "pool s h = Some d \<and> p \<in> set (txIn (Tx d))"
    with a show "\<exists>t. outpoints s p = Some t \<and> txHash t = h" by blast
  next
    fix h1 d1 h2 d2 p
    assume "pool s h1 = Some d1 \<and> pool s h2 = Some d2
              \<and> p \<in> set (txIn (Tx d1)) \<and> p \<in> set (txIn (Tx d2))"
    with a [of h1 d1 p] a [of h2 d2 p] show "h1 = h2" by auto
  qed
qed

theorem C1_pool_spender_index_witness:
  "reachable (demoCfg 1) {demoEnv 1000 0} demoPoolMixed
   \<and> pool demoPoolMixed 1 = Some (demoDesc txParent)
   \<and> (0, 0) \<in> set (txIn (Tx (demoDesc txParent)))
   \<and> (\<exists>t. outpoints demoPoolMixed (0, 0) = Some t \<and> txHash t = 1)"
proof -
  have p: "pool demoPoolMixed 1 = Some (demoDesc txParent)"
    by (simp add: demoPoolMixed_def demoPoolP_def)
  have i: "(0, 0) \<in> set (txIn (Tx (demoDesc txParent)))"
    by (simp add: demoDesc_def txParent_def)
  from C1_pool_spender_index [OF demo_reachable_mixed] p i
  have "\<exists>t. outpoints demoPoolMixed (0, 0) = Some t \<and> txHash t = 1" by blast
  with demo_reachable_mixed p i show ?thesis by simp
qed

text \<open>
  Claim C3. In every state of the pool reachable through the public methods, no
  transaction hash is a key of both \<open>pool\<close> and \<open>orphans\<close>.
\<close>

theorem C3_pool_orphans_disjoint:
  assumes "reachable cfg envs s"
  shows "\<not> (h \<in> dom (pool s) \<and> h \<in> dom (orphans s))"
  using reachable_poolInv [OF assms] by (auto simp: poolInv_def)

theorem C3_pool_orphans_disjoint_witness:
  "reachable (demoCfg 1) {demoEnv 1000 0} demoPoolMixed
   \<and> 1 \<in> dom (pool demoPoolMixed) \<and> 5 \<in> dom (orphans demoPoolMixed)
   \<and> 1 \<notin> dom (orphans demoPoolMixed) \<and> 5 \<notin> dom (pool demoPoolMixed)"
proof -
  have a: "1 \<in> dom (pool demoPoolMixed)" "5 \<in> dom (orphans demoPoolMixed)"
    by (simp_all add: demoPoolMixed_def demoPoolP_def)
  from C3_pool_orphans_disjoint [OF demo_reachable_mixed, of 1]
    C3_pool_orphans_disjoint [OF demo_reachable_mixed, of 5] a
  have "1 \<notin> dom (orphans demoPoolMixed)" "5 \<notin> dom (pool demoPoolMixed)" by blast+
  with demo_reachable_mixed a show ?thesis by simp
qed

section \<open>The capacity of the orphan pool\<close>














lemma demo_child1_missing:
  "maybeAcceptTransaction (demoCfg 1) (demoEnv 1000 0) txChild1 True True True demoPool
     = (MissingParents [1], demoPool)"
  by (simp add: maybeAcceptTransaction_def demo_defs accept_defs)

lemma demo_add_child1:
  "ProcessTransaction 5 [2, 3] (demoCfg 1) (demoEnv 1000 0) 0 0 txChild1 True True 7 demoPool
   = Some (Inr [], demoPoolC1)"
  by (simp add: ProcessTransaction_def demo_child1_missing)
     (simp add: orphan_defs demo_defs demoPoolC1_def demoOrphan_def)

lemma demo_child2_missing:
  "maybeAcceptTransaction (demoCfg 1) (demoEnv 1000 0) txChild2 True True True demoPoolC1
     = (MissingParents [1], demoPoolC1)"
  by (simp add: maybeAcceptTransaction_def demo_defs accept_defs demoPoolC1_def)

lemma demo_add_child2:
  "ProcessTransaction 5 [2, 3] (demoCfg 1) (demoEnv 1000 0) 0 0 txChild2 True True 7 demoPoolC1
   = Some (Inr [], demoPoolC2)"
  by (simp add: ProcessTransaction_def demo_child2_missing)
     (simp add: orphan_defs demo_defs demoPoolC1_def demoPoolC2_def demoOrphan_def)




section \<open>Orphans are removed together with their redeemers\<close>


lemma removedWithRedeemers_refl [simp]: "removedWithRedeemers s s"
  by (auto simp: removedWithRedeemers_def)









section \<open>The expiry of orphans\<close>












section \<open>Promotion of orphans and the order of their arrival\<close>

text \<open>
  Acceptance, promotion and the removal of orphans never read an expiration time: each of
  them commutes with \<open>forgetExpiry\<close>.
\<close>

lemma forgetExpiry_fields [simp]:
  "pool (forgetExpiry s) = pool s" "outpoints (forgetExpiry s) = outpoints s"
  "orphansByPrev (forgetExpiry s) = orphansByPrev s" "lastUpdated (forgetExpiry s) = lastUpdated s"
  "pennyTotal (forgetExpiry s) = pennyTotal s" "lastPennyUnix (forgetExpiry s) = lastPennyUnix s"
  "nextExpireScan (forgetExpiry s) = nextExpireScan s"
  "orphans (forgetExpiry s) h = map_option (\<lambda>ot. ot\<lparr>expiration := 0\<rparr>) (orphans s h)"
  by (simp_all add: forgetExpiry_def)

lemma lookupPrev_forgetExpiry [simp]: "lookupPrev (forgetExpiry s) = lookupPrev s"
  by (simp add: lookupPrev_def fun_eq_iff)

lemma forgetExpiry_orphansByPrev_update:
  "forgetExpiry (s\<lparr>orphansByPrev := x\<rparr>) = (forgetExpiry s)\<lparr>orphansByPrev := x\<rparr>"
  by (simp add: forgetExpiry_def)

lemma unlinkPrev_forgetExpiry:
  "unlinkPrev h p (forgetExpiry s) = forgetExpiry (unlinkPrev h p s)"
  by (simp add: unlinkPrev_def Let_def forgetExpiry_orphansByPrev_update split: option.splits)

lemma fold_unlinkPrev_forgetExpiry:
  "fold (unlinkPrev h) ps (forgetExpiry s) = forgetExpiry (fold (unlinkPrev h) ps s)"
  by (induction ps arbitrary: s) (simp_all add: unlinkPrev_forgetExpiry)

lemma forgetExpiry_delete:
  "(forgetExpiry s)\<lparr>orphans := (orphans (forgetExpiry s))(h := None)\<rparr>
     = forgetExpiry (s\<lparr>orphans := (orphans s)(h := None)\<rparr>)"
  by (simp add: forgetExpiry_def fun_eq_iff)

lemma forEachM_commute:
  assumes "\<And>x a. x \<in> set xs \<Longrightarrow> f x (g a) = map_option g (f x a)"
  shows "forEachM f xs (g a) = map_option g (forEachM f xs a)"
  using assms
proof (induction xs arbitrary: a)
  case Nil
  show ?case by simp
next
  case (Cons x xs)
  have x: "f x (g a) = map_option g (f x a)" by (rule Cons.prems) simp
  have r: "forEachM f xs (g b) = map_option g (forEachM f xs b)" for b
    by (rule Cons.IH) (simp add: Cons.prems)
  show ?case by (cases "f x a") (simp_all add: x r)
qed

lemma rangePrev_forgetExpiry:
  assumes "\<And>t a. body t (forgetExpiry a) = map_option forgetExpiry (body t a)"
  shows "rangePrev ord p body (forgetExpiry s) = map_option forgetExpiry (rangePrev ord p body s)"
  unfolding rangePrev_def
  by (rule forEachM_commute) (simp add: assms split: option.splits)

lemma removeOrphan_forgetExpiry:
  "removeOrphan n ord t rr (forgetExpiry s) = map_option forgetExpiry (removeOrphan n ord t rr s)"
proof (induction n arbitrary: t rr s)
  case 0
  show ?case by simp
next
  case (Suc n)
  have loops: "removeRedeemersOf ord t (\<lambda>orphan s'. removeOrphan n ord orphan True s')
                 (forgetExpiry a)
               = map_option forgetExpiry
                   (removeRedeemersOf ord t (\<lambda>orphan s'. removeOrphan n ord orphan True s') a)"
    for a :: "'a txPool"
    unfolding removeRedeemersOf_def
    by (rule forEachM_commute) (rule rangePrev_forgetExpiry, rule Suc.IH)
  show ?case
  proof (cases "orphans s (txHash t)")
    case None
    then show ?thesis by simp
  next
    case (Some ot)
    show ?thesis
    proof (cases rr)
      case True
      show ?thesis
        by (cases "removeRedeemersOf ord t (\<lambda>orphan s'. removeOrphan n ord orphan True s')
                     (fold (unlinkPrev (txHash t)) (txIn (otx ot)) s)")
           (simp_all add: Some True fold_unlinkPrev_forgetExpiry loops forgetExpiry_delete)
    next
      case False
      then show ?thesis
        by (simp add: Some fold_unlinkPrev_forgetExpiry forgetExpiry_delete)
    qed
  qed
qed

lemma forgetExpiry_update_commute:
  "forgetExpiry (s\<lparr>pennyTotal := a\<rparr>) = (forgetExpiry s)\<lparr>pennyTotal := a\<rparr>"
  "forgetExpiry (s\<lparr>lastPennyUnix := b\<rparr>) = (forgetExpiry s)\<lparr>lastPennyUnix := b\<rparr>"
  "forgetExpiry (s\<lparr>pool := c\<rparr>) = (forgetExpiry s)\<lparr>pool := c\<rparr>"
  "forgetExpiry (s\<lparr>outpoints := d\<rparr>) = (forgetExpiry s)\<lparr>outpoints := d\<rparr>"
  "forgetExpiry (s\<lparr>lastUpdated := e\<rparr>) = (forgetExpiry s)\<lparr>lastUpdated := e\<rparr>"
  by (simp_all add: forgetExpiry_def)

lemma checkPoolDoubleSpendLoop_forgetExpiry:
  "checkPoolDoubleSpendLoop (forgetExpiry s) ps = checkPoolDoubleSpendLoop s ps"
  by (induction ps) (simp_all split: option.splits)

lemma acceptChecks_forgetExpiry:
  "acceptChecks cfg E t rdo (forgetExpiry s) = acceptChecks cfg E t rdo s"
proof -
  have a: "(orphans (forgetExpiry s) (txHash t) = None) = (orphans s (txHash t) = None)"
    by simp
  have b: "checkPoolDoubleSpend (forgetExpiry s) t = checkPoolDoubleSpend s t"
    by (simp add: checkPoolDoubleSpend_def checkPoolDoubleSpendLoop_forgetExpiry)
  have c: "fetchInputUtxos E (forgetExpiry s) t = fetchInputUtxos E s t"
    unfolding fetchInputUtxos_def forgetExpiry_fields(1) by (rule refl)
  have d: "pool (forgetExpiry s) = pool s" by simp
  show ?thesis by (simp only: acceptChecks_def a b c d)
qed

lemma rateLimitFree_forgetExpiry:
  "rateLimitFree cfg E t rl fee (forgetExpiry s)
     = map_prod id forgetExpiry (rateLimitFree cfg E t rl fee s)"
  by (simp add: rateLimitFree_def decayedPennyTotal_def Let_def forgetExpiry_update_commute)

lemma addTransaction_forgetExpiry:
  "addTransaction E v t h fee (forgetExpiry s)
     = map_prod id forgetExpiry (addTransaction E v t h fee s)"
  by (simp add: addTransaction_def Let_def forgetExpiry_update_commute)

lemma maybeAccept_forgetExpiry:
  "maybeAcceptTransaction cfg E t isNew rl rdo (forgetExpiry s)
     = map_prod id forgetExpiry (maybeAcceptTransaction cfg E t isNew rl rdo s)"
proof (cases "acceptChecks cfg E t rdo s")
  case (Inl err)
  then show ?thesis by (simp add: maybeAcceptTransaction_def acceptChecks_forgetExpiry)
next
  case (Inr x)
  show ?thesis
  proof (cases x)
    case (Inl ms)
    with Inr show ?thesis by (simp add: maybeAcceptTransaction_def acceptChecks_forgetExpiry)
  next
    case (Inr vf)
    obtain v fee where vf: "vf = (v, fee)" by (cases vf)
    obtain e s1 where r: "rateLimitFree cfg E t rl fee s = (e, s1)"
      by (cases "rateLimitFree cfg E t rl fee s")
    obtain d s2 where a: "addTransaction E v t (BestHeight E) fee s1 = (d, s2)"
      by (cases "addTransaction E v t (BestHeight E) fee s1")
    from \<open>acceptChecks cfg E t rdo s = Inr x\<close> Inr vf r a show ?thesis
      by (simp add: maybeAcceptTransaction_def acceptChecks_forgetExpiry
          rateLimitFree_forgetExpiry addTransaction_forgetExpiry split: option.splits)
  qed
qed

lemma tryRedeemers_forgetExpiry:
  "tryRedeemers fuel ord cfg E p hs (forgetExpiry s, acc, q)
     = map_option (map_prod forgetExpiry id) (tryRedeemers fuel ord cfg E p hs (s, acc, q))"
proof (induction hs arbitrary: s)
  case Nil
  show ?case by simp
next
  case (Cons h hs)
  show ?case
  proof (cases "lookupPrev s p h")
    case None
    then show ?thesis by (simp add: Cons.IH)
  next
    case (Some t)
    obtain r s' where m: "maybeAcceptTransaction cfg E t True True False s = (r, s')"
      by (cases "maybeAcceptTransaction cfg E t True True False s")
    have m': "maybeAcceptTransaction cfg E t True True False (forgetExpiry s)
                = (r, forgetExpiry s')"
      by (simp add: maybeAccept_forgetExpiry m)
    show ?thesis
    proof (cases r)
      case (Rejected err)
      then show ?thesis
        by (cases "removeOrphan fuel ord t True s'")
           (simp_all add: Some m m' removeOrphan_forgetExpiry)
    next
      case (MissingParents ms)
      then show ?thesis by (simp add: Some m m' Cons.IH)
    next
      case (Accepted d)
      then show ?thesis
        by (cases "removeOrphan fuel ord t False s'")
           (simp_all add: Some m m' removeOrphan_forgetExpiry)
    qed
  qed
qed

lemma processLoop_forgetExpiry:
  "processLoop k fuel ord cfg E pl (forgetExpiry s, acc)
     = map_option (map_prod forgetExpiry id) (processLoop k fuel ord cfg E pl (s, acc))"
proof (induction k arbitrary: pl s acc)
  case 0
  show ?case by simp
next
  case (Suc k)
  show ?case
  proof (cases pl)
    case Nil
    then show ?thesis by simp
  next
    case (Cons item rest)
    let ?f = "\<lambda>txOutIdx. tryRedeemers fuel ord cfg E (txHash item, txOutIdx) ord"
    have f: "?f i (map_prod forgetExpiry id a) = map_option (map_prod forgetExpiry id) (?f i a)"
      for i and a :: "'a txPool \<times> 'a txDesc list \<times> tx list"
      by (cases a) (simp add: tryRedeemers_forgetExpiry)
    have l: "forEachM ?f is (forgetExpiry s, acc, rest)
               = map_option (map_prod forgetExpiry id) (forEachM ?f is (s, acc, rest))" for "is"
      using forEachM_commute [where f = ?f and g = "map_prod forgetExpiry id"
          and a = "(s, acc, rest)" and xs = "is", OF f]
      by simp
    show ?thesis
    proof (cases "forEachM ?f [0 ..< length (txOut item)] (s, acc, rest)")
      case None
      then show ?thesis by (simp add: Cons l)
    next
      case (Some st)
      obtain s' acc' pl' where st: "st = (s', acc', pl')" by (cases st)
      from Some st show ?thesis by (simp add: Cons l Suc.IH)
    qed
  qed
qed

lemma removeOrphanDoubleSpends_forgetExpiry:
  "removeOrphanDoubleSpends fuel ord t (forgetExpiry s)
     = map_option forgetExpiry (removeOrphanDoubleSpends fuel ord t s)"
  unfolding removeOrphanDoubleSpends_def
  by (rule forEachM_commute) (rule rangePrev_forgetExpiry, rule removeOrphan_forgetExpiry)

lemma processOrphans_forgetExpiry:
  "processOrphans fuel ord cfg E t (forgetExpiry s)
     = map_option (map_prod id forgetExpiry) (processOrphans fuel ord cfg E t s)"
proof (cases "processLoop fuel fuel ord cfg E [t] (s, [])")
  case None
  then show ?thesis by (simp add: processOrphans_def processLoop_forgetExpiry)
next
  case (Some st)
  obtain s1 acc where st: "st = (s1, acc)" by (cases st)
  have l: "forEachM (removeOrphanDoubleSpends fuel ord) ts (forgetExpiry s1)
             = map_option forgetExpiry (forEachM (removeOrphanDoubleSpends fuel ord) ts s1)"
    for ts
    by (rule forEachM_commute) (rule removeOrphanDoubleSpends_forgetExpiry)
  from Some st show ?thesis
    by (cases "forEachM (removeOrphanDoubleSpends fuel ord) (t # map Tx acc) s1")
       (simp_all add: processOrphans_def processLoop_forgetExpiry l del: forEachM.simps)
qed

lemma ProcessTransaction_forgetExpiry:
  assumes "allowOrphan \<longrightarrow>
             (\<forall>ms. fst (maybeAcceptTransaction cfg E t True rl True s) \<noteq> MissingParents ms)"
  shows "map_option fst
           (ProcessTransaction fuel ord cfg E now now' t allowOrphan rl tg (forgetExpiry s))
         = map_option fst (ProcessTransaction fuel ord cfg E now now' t allowOrphan rl tg s)"
proof -
  obtain r s1 where m: "maybeAcceptTransaction cfg E t True rl True s = (r, s1)"
    by (cases "maybeAcceptTransaction cfg E t True rl True s")
  have m': "maybeAcceptTransaction cfg E t True rl True (forgetExpiry s) = (r, forgetExpiry s1)"
    by (simp add: maybeAccept_forgetExpiry m)
  show ?thesis
  proof (cases r)
    case (Rejected err)
    then show ?thesis by (simp add: ProcessTransaction_def m m')
  next
    case (MissingParents ms)
    with assms m have "\<not> allowOrphan" by auto
    with MissingParents show ?thesis by (simp add: ProcessTransaction_def m m')
  next
    case (Accepted d)
    then show ?thesis
      by (cases "processOrphans fuel ord cfg E t s1")
         (auto simp: ProcessTransaction_def m m' processOrphans_forgetExpiry)
  qed
qed

text \<open>
  Storing two orphans with different hashes gives the same pool in either order, up to
  the expiration times.
\<close>

lemma orphansByPrev_linkPrev:
  "orphansByPrev (linkPrev t a s) p =
     (if p = a
      then Some ((case orphansByPrev s p of None \<Rightarrow> Map.empty | Some m \<Rightarrow> m)(txHash t \<mapsto> t))
      else orphansByPrev s p)"
  by (simp add: linkPrev_def)

lemma orphansByPrev_fold_linkPrev:
  "orphansByPrev (fold (linkPrev t) ps s) p =
     (if p \<in> set ps
      then Some ((case orphansByPrev s p of None \<Rightarrow> Map.empty | Some m \<Rightarrow> m)(txHash t \<mapsto> t))
      else orphansByPrev s p)"
  by (induction ps arbitrary: s) (auto simp: orphansByPrev_linkPrev)

lemma storeOrphan_fields:
  "pool (storeOrphan x s) = pool s" "outpoints (storeOrphan x s) = outpoints s"
  "lastUpdated (storeOrphan x s) = lastUpdated s" "pennyTotal (storeOrphan x s) = pennyTotal s"
  "lastPennyUnix (storeOrphan x s) = lastPennyUnix s"
  "nextExpireScan (storeOrphan x s) = nextExpireScan s"
  "orphans (storeOrphan x s)
     = (orphans s)(txHash (fst x) \<mapsto> \<lparr>otx = fst x, tag = snd x, expiration = 0\<rparr>)"
  "orphansByPrev (storeOrphan x s) p =
     (if p \<in> set (txIn (fst x))
      then Some ((case orphansByPrev s p of None \<Rightarrow> Map.empty | Some m \<Rightarrow> m)
                   (txHash (fst x) \<mapsto> fst x))
      else orphansByPrev s p)"
  by (simp_all add: storeOrphan_def orphansByPrev_fold_linkPrev)

lemma storeOrphan_commute:
  assumes "txHash (fst x) \<noteq> txHash (fst y)"
  shows "storeOrphan x (storeOrphan y s) = storeOrphan y (storeOrphan x s)"
proof (rule txPool.equality)
  show "orphans (storeOrphan x (storeOrphan y s)) = orphans (storeOrphan y (storeOrphan x s))"
    using assms by (simp add: storeOrphan_fields fun_upd_twist)
  show "orphansByPrev (storeOrphan x (storeOrphan y s))
          = orphansByPrev (storeOrphan y (storeOrphan x s))"
  proof
    fix p
    show "orphansByPrev (storeOrphan x (storeOrphan y s)) p
            = orphansByPrev (storeOrphan y (storeOrphan x s)) p"
      using assms by (simp add: storeOrphan_fields fun_upd_twist)
  qed
qed (simp_all add: storeOrphan_fields)

lemma forgetExpiry_linkPrev:
  "forgetExpiry (linkPrev t p s) = linkPrev t p (forgetExpiry s)"
  by (simp add: linkPrev_def forgetExpiry_orphansByPrev_update)

lemma forgetExpiry_fold_linkPrev:
  "forgetExpiry (fold (linkPrev t) ps s) = fold (linkPrev t) ps (forgetExpiry s)"
  by (induction ps arbitrary: s) (simp_all add: forgetExpiry_linkPrev)

lemma forgetExpiry_store:
  "forgetExpiry (fold (linkPrev t) (txIn t)
       (s\<lparr>orphans := (orphans s)(txHash t \<mapsto> \<lparr>otx = t, tag = tg, expiration = e\<rparr>)\<rparr>))
     = storeOrphan (t, tg) (forgetExpiry s)"
proof -
  have "forgetExpiry (s\<lparr>orphans := (orphans s)(txHash t \<mapsto> \<lparr>otx = t, tag = tg, expiration = e\<rparr>)\<rparr>)
          = (forgetExpiry s)\<lparr>orphans := (orphans (forgetExpiry s))
               (txHash t \<mapsto> \<lparr>otx = t, tag = tg, expiration = 0\<rparr>)\<rparr>"
    by (simp add: forgetExpiry_def fun_eq_iff)
  then show ?thesis by (simp add: storeOrphan_def forgetExpiry_fold_linkPrev)
qed

text \<open>
  When no scan is due and there is room, \<open>addOrphan\<close> only stores the new orphan.
\<close>

lemma addOrphan_room:
  assumes "int (card (dom (orphans s))) + 1 \<le> MaxOrphanTxs (Policy cfg)"
      and "now \<le> nextExpireScan s"
  shows "addOrphan fuel ord cfg now now' t tg s =
           Some (fold (linkPrev t) (txIn t)
                   (s\<lparr>orphans := (orphans s)
                         (txHash t \<mapsto> \<lparr>otx = t, tag = tg, expiration = now' + orphanTTL\<rparr>)\<rparr>))"
proof -
  from assms(1) have "\<not> MaxOrphanTxs (Policy cfg) \<le> 0" by linarith
  with assms show ?thesis by (simp add: addOrphan_def limitNumOrphans_def expireScan_def)
qed

lemma addOrphans_room:
  assumes "\<forall>x\<in>set xs. fst (snd (snd x)) \<le> nextExpireScan s"
      and "finite (dom (orphans s))"
      and "int (card (dom (orphans s))) + int (length xs) \<le> MaxOrphanTxs (Policy cfg)"
  shows "\<exists>s'. addOrphans fuel ord cfg xs s = Some s'
              \<and> forgetExpiry s'
                  = fold storeOrphan (map (\<lambda>x. (fst x, fst (snd x))) xs) (forgetExpiry s)"
  using assms
proof (induction xs arbitrary: s)
  case Nil
  show ?case by simp
next
  case (Cons x xs)
  obtain t tg now now' where x: "x = (t, tg, now, now')" by (cases x)
  let ?s1 = "fold (linkPrev t) (txIn t)
               (s\<lparr>orphans := (orphans s)
                     (txHash t \<mapsto> \<lparr>otx = t, tag = tg, expiration = now' + orphanTTL\<rparr>)\<rparr>)"
  from Cons.prems(3) have room1: "int (card (dom (orphans s))) + 1 \<le> MaxOrphanTxs (Policy cfg)"
    by simp
  from Cons.prems(1) x have now: "now \<le> nextExpireScan s" by simp
  have a: "addOrphan fuel ord cfg now now' t tg s = Some ?s1"
    by (rule addOrphan_room [OF room1 now])
  have d: "dom (orphans ?s1) = insert (txHash t) (dom (orphans s))" by simp
  have f: "finite (dom (orphans ?s1))" using Cons.prems(2) by (simp only: d finite_insert)
  have "card (dom (orphans ?s1)) \<le> card (dom (orphans s)) + 1"
    using Cons.prems(2) by (simp only: d) (simp add: card_insert_if)
  with Cons.prems(3) have r: "int (card (dom (orphans ?s1))) + int (length xs)
                                \<le> MaxOrphanTxs (Policy cfg)"
    by simp
  have n: "\<forall>x\<in>set xs. fst (snd (snd x)) \<le> nextExpireScan ?s1"
    using Cons.prems(1) by simp
  from Cons.IH [OF n f r] obtain s' where
    s': "addOrphans fuel ord cfg xs ?s1 = Some s'"
        "forgetExpiry s' = fold storeOrphan (map (\<lambda>x. (fst x, fst (snd x))) xs) (forgetExpiry ?s1)"
    by blast
  have "addOrphans fuel ord cfg (x # xs) s = Some s'" by (simp add: x a s'(1))
  moreover have "forgetExpiry s'
      = fold storeOrphan (map (\<lambda>x. (fst x, fst (snd x))) (x # xs)) (forgetExpiry s)"
    by (simp add: s'(2) x forgetExpiry_store)
  ultimately show ?case by blast
qed

lemma fold_storeOrphan_order:
  assumes "mset xs = mset ys" and "distinct (map (\<lambda>x. txHash (fst x)) xs)"
  shows "fold storeOrphan xs = (fold storeOrphan ys :: 'f txPool \<Rightarrow> 'f txPool)"
proof (rule fold_multiset_equiv [OF _ assms(1)])
  fix x y
  assume xy: "x \<in> set xs" "y \<in> set xs"
  show "storeOrphan x \<circ> storeOrphan y = (storeOrphan y \<circ> storeOrphan x  :: 'f txPool \<Rightarrow> 'f txPool)"
  proof (cases "x = y")
    case True
    then show ?thesis by simp
  next
    case False
    from assms(2) have "inj_on (\<lambda>x. txHash (fst x)) (set xs)" by (simp add: distinct_map)
    with xy False have "txHash (fst x) \<noteq> txHash (fst y)" by (auto dest: inj_onD)
    then show ?thesis by (simp add: fun_eq_iff storeOrphan_commute)
  qed
qed

text \<open>
  Claim C5. Let the same orphans (the same transactions with the same tags, with
  different hashes) be stored by \<open>addOrphan\<close> in two different orders, starting from
  the same pool, while no expiry scan is due and the orphan pool has room for all of
  them. Then both runs store every orphan, and a transaction processed afterwards by
  \<open>ProcessTransaction\<close>, with the same chain state and the same iteration order of the
  maps, returns the same list of accepted transactions after either run (and returns in
  one case exactly when it returns in the other), unless that transaction itself lacks a
  parent and is stored as an orphan. Without room for all of them the order of arrival
  decides which orphan is evicted, and so which one is promoted later.
\<close>

theorem C5_promotion_any_order:
  assumes same: "mset (map (\<lambda>x. (fst x, fst (snd x))) xs) = mset (map (\<lambda>x. (fst x, fst (snd x))) ys)"
      and dist: "distinct (map (\<lambda>x. txHash (fst x)) xs)"
      and noscan: "\<forall>x\<in>set xs \<union> set ys. fst (snd (snd x)) \<le> nextExpireScan s"
      and fin: "finite (dom (orphans s))"
      and room: "int (card (dom (orphans s))) + int (length xs) \<le> MaxOrphanTxs (Policy cfg)"
  shows "\<exists>sx sy. addOrphans fuel ord cfg xs s = Some sx
               \<and> addOrphans fuel ord cfg ys s = Some sy
               \<and> ((allowOrphan \<longrightarrow>
                     (\<forall>ms. fst (maybeAcceptTransaction cfg E t True rateLimit True sx)
                             \<noteq> MissingParents ms))
                  \<longrightarrow> map_option fst
                        (ProcessTransaction fuel' ord' cfg E now now' t allowOrphan rateLimit tg sx)
                      = map_option fst
                        (ProcessTransaction fuel' ord' cfg E now now' t allowOrphan rateLimit tg sy))"
proof -
  let ?p = "\<lambda>x :: tx \<times> nat \<times> time \<times> time. (fst x, fst (snd x))"
  from same have "size (mset (map ?p xs)) = size (mset (map ?p ys))" by simp
  then have len: "length ys = length xs" by simp
  from noscan have nx: "\<forall>x\<in>set xs. fst (snd (snd x)) \<le> nextExpireScan s"
    and ny: "\<forall>x\<in>set ys. fst (snd (snd x)) \<le> nextExpireScan s" by auto
  from room len have roomy: "int (card (dom (orphans s))) + int (length ys)
                               \<le> MaxOrphanTxs (Policy cfg)" by simp
  from addOrphans_room [OF nx fin room] obtain sx where
    sx: "addOrphans fuel ord cfg xs s = Some sx"
        "forgetExpiry sx = fold storeOrphan (map ?p xs) (forgetExpiry s)" by blast
  from addOrphans_room [OF ny fin roomy] obtain sy where
    sy: "addOrphans fuel ord cfg ys s = Some sy"
        "forgetExpiry sy = fold storeOrphan (map ?p ys) (forgetExpiry s)" by blast
  from dist have d: "distinct (map (\<lambda>x. txHash (fst x)) (map ?p xs))" by (simp add: comp_def)
  have "fold storeOrphan (map ?p xs) (forgetExpiry s)
          = fold storeOrphan (map ?p ys) (forgetExpiry s)"
    by (rule fun_cong [OF fold_storeOrphan_order [OF same d]])
  with sx(2) sy(2) have eq: "forgetExpiry sx = forgetExpiry sy" by simp
  have "map_option fst
          (ProcessTransaction fuel' ord' cfg E now now' t allowOrphan rateLimit tg sx)
        = map_option fst
          (ProcessTransaction fuel' ord' cfg E now now' t allowOrphan rateLimit tg sy)"
    if c: "allowOrphan \<longrightarrow>
             (\<forall>ms. fst (maybeAcceptTransaction cfg E t True rateLimit True sx) \<noteq> MissingParents ms)"
  proof -
    have "fst (maybeAcceptTransaction cfg E t True rateLimit True sy)
            = fst (maybeAcceptTransaction cfg E t True rateLimit True (forgetExpiry sy))"
      by (simp add: maybeAccept_forgetExpiry)
    also have "\<dots> = fst (maybeAcceptTransaction cfg E t True rateLimit True sx)"
      by (simp add: eq [symmetric] maybeAccept_forgetExpiry)
    finally have c': "allowOrphan \<longrightarrow>
        (\<forall>ms. fst (maybeAcceptTransaction cfg E t True rateLimit True sy) \<noteq> MissingParents ms)"
      using c by simp
    from ProcessTransaction_forgetExpiry [OF c, of fuel' ord' now now' tg]
         ProcessTransaction_forgetExpiry [OF c', of fuel' ord' now now' tg] eq
    show ?thesis by simp
  qed
  with sx(1) sy(1) show ?thesis by blast
qed

lemmas promote_defs = maybeAcceptTransaction_def tryRedeemers.simps processLoop.simps

text \<open>
  With room for a single orphan the order of arrival decides which child is still in the
  orphan pool when the parent arrives: the child that came first has been evicted.
\<close>

lemma demo_promote_child2:
  "map_option fst
     (ProcessTransaction 5 [2, 3] (demoCfg 1) (demoEnv 1000 0) 0 0 txParent True True 7 demoPoolC2)
   = Some (Inr [demoDesc txParent, demoDesc txChild2])"
  by (simp add: demoPoolC2_def demoOrphan_def demoDesc_def promote_defs orphan_defs demo_defs
      accept_defs Let_def)

lemma demo_promote_child1:
  "map_option fst
     (ProcessTransaction 5 [2, 3] (demoCfg 1) (demoEnv 1000 0) 0 0 txParent True True 7 demoPoolC1)
   = Some (Inr [demoDesc txParent, demoDesc txChild1])"
  by (simp add: demoPoolC1_def demoOrphan_def demoDesc_def promote_defs orphan_defs demo_defs
      accept_defs Let_def)

lemma demo_add_child2_first:
  "ProcessTransaction 5 [2, 3] (demoCfg 1) (demoEnv 1000 0) 0 0 txChild2 True True 7 demoPool
   = Some (Inr [], demoPoolC2)"
  by (simp add: ProcessTransaction_def maybeAcceptTransaction_def demo_defs accept_defs)
     (simp add: orphan_defs demo_defs demoPoolC2_def demoOrphan_def)

lemma demo_add_child1_second:
  "ProcessTransaction 5 [2, 3] (demoCfg 1) (demoEnv 1000 0) 0 0 txChild1 True True 7 demoPoolC2
   = Some (Inr [], demoPoolC1)"
  by (simp add: ProcessTransaction_def maybeAcceptTransaction_def demo_defs accept_defs
      demoPoolC2_def)
     (simp add: orphan_defs demo_defs demoPoolC1_def demoPoolC2_def demoOrphan_def)

theorem C5_arrival_order_counterexample:
  "ProcessTransaction 5 [2, 3] (demoCfg 1) (demoEnv 1000 0) 0 0 txChild1 True True 7 demoPool
     = Some (Inr [], demoPoolC1)
   \<and> ProcessTransaction 5 [2, 3] (demoCfg 1) (demoEnv 1000 0) 0 0 txChild2 True True 7 demoPoolC1
     = Some (Inr [], demoPoolC2)
   \<and> map_option fst
       (ProcessTransaction 5 [2, 3] (demoCfg 1) (demoEnv 1000 0) 0 0 txParent True True 7
          demoPoolC2)
     = Some (Inr [demoDesc txParent, demoDesc txChild2])
   \<and> ProcessTransaction 5 [2, 3] (demoCfg 1) (demoEnv 1000 0) 0 0 txChild2 True True 7 demoPool
     = Some (Inr [], demoPoolC2)
   \<and> ProcessTransaction 5 [2, 3] (demoCfg 1) (demoEnv 1000 0) 0 0 txChild1 True True 7 demoPoolC2
     = Some (Inr [], demoPoolC1)
   \<and> map_option fst
       (ProcessTransaction 5 [2, 3] (demoCfg 1) (demoEnv 1000 0) 0 0 txParent True True 7
          demoPoolC1)
     = Some (Inr [demoDesc txParent, demoDesc txChild1])
   \<and> set [demoDesc txParent, demoDesc txChild2] \<noteq> set [demoDesc txParent, demoDesc txChild1]"
proof -
  have "set [demoDesc txParent, demoDesc txChild2] \<noteq> set [demoDesc txParent, demoDesc txChild1]"
    by (simp add: demoDesc_def txParent_def txChild1_def txChild2_def doubleton_eq_iff)
  with demo_add_child1 demo_add_child2 demo_promote_child2 demo_add_child2_first
    demo_add_child1_second demo_promote_child1
  show ?thesis by blast
qed

text \<open>With room for five orphans both children are promoted, in either order of arrival.\<close>

lemma demo_add_12:
  "addOrphans 5 [2, 3] (demoCfg 5) [(txChild1, 7, 0, 0), (txChild2, 7, 60000000000, 60000000000)]
     demoPool = Some demoPool12"
  by (simp add: orphan_defs demo_defs demoPool12_def)

lemma demo_add_21:
  "addOrphans 5 [2, 3] (demoCfg 5) [(txChild2, 7, 0, 0), (txChild1, 7, 60000000000, 60000000000)]
     demoPool = Some demoPool21"
  by (simp add: orphan_defs demo_defs demoPool21_def)

lemma demo_parent_accepted_12:
  "fst (maybeAcceptTransaction (demoCfg 5) (demoEnv 1000 0) txParent True True True demoPool12)
     = Accepted (demoDesc txParent)"
  by (simp add: maybeAcceptTransaction_def demoPool12_def demoDesc_def demo_defs accept_defs Let_def)

lemma demo_promote_12:
  "map_option fst
     (ProcessTransaction 5 [2, 3] (demoCfg 5) (demoEnv 1000 0) 120000000000 120000000000
        txParent True True 7 demoPool12)
   = Some (Inr [demoDesc txParent, demoDesc txChild1, demoDesc txChild2])"
  by (simp add: demoPool12_def demoDesc_def promote_defs orphan_defs demo_defs
      accept_defs Let_def)

theorem C5_promotion_any_order_witness:
  "mset (map (\<lambda>x. (fst x, fst (snd x)))
           [(txChild1, 7 :: nat, 0 :: time, 0 :: time), (txChild2, 7, 60000000000, 60000000000)])
     = mset (map (\<lambda>x. (fst x, fst (snd x)))
           [(txChild2, 7, 0, 0), (txChild1, 7, 60000000000, 60000000000)])
   \<and> distinct (map (\<lambda>x. txHash (fst x))
           [(txChild1, 7 :: nat, 0 :: time, 0 :: time), (txChild2, 7, 60000000000, 60000000000)])
   \<and> 60000000000 \<le> nextExpireScan demoPool
   \<and> finite (dom (orphans demoPool))
   \<and> int (card (dom (orphans demoPool))) + 2 \<le> MaxOrphanTxs (Policy (demoCfg 5))
   \<and> addOrphans 5 [2, 3] (demoCfg 5)
        [(txChild1, 7, 0, 0), (txChild2, 7, 60000000000, 60000000000)] demoPool = Some demoPool12
   \<and> addOrphans 5 [2, 3] (demoCfg 5)
        [(txChild2, 7, 0, 0), (txChild1, 7, 60000000000, 60000000000)] demoPool = Some demoPool21
   \<and> fst (maybeAcceptTransaction (demoCfg 5) (demoEnv 1000 0) txParent True True True demoPool12)
       = Accepted (demoDesc txParent)
   \<and> map_option fst
       (ProcessTransaction 5 [2, 3] (demoCfg 5) (demoEnv 1000 0) 120000000000 120000000000
          txParent True True 7 demoPool12)
     = Some (Inr [demoDesc txParent, demoDesc txChild1, demoDesc txChild2])
   \<and> map_option fst
       (ProcessTransaction 5 [2, 3] (demoCfg 5) (demoEnv 1000 0) 120000000000 120000000000
          txParent True True 7 demoPool21)
     = Some (Inr [demoDesc txParent, demoDesc txChild1, demoDesc txChild2])"
proof -
  let ?xs = "[(txChild1, 7 :: nat, 0 :: time, 0 :: time), (txChild2, 7, 60000000000, 60000000000)]"
  let ?ys = "[(txChild2, 7 :: nat, 0 :: time, 0 :: time), (txChild1, 7, 60000000000, 60000000000)]"
  have same: "mset (map (\<lambda>x. (fst x, fst (snd x))) ?xs) = mset (map (\<lambda>x. (fst x, fst (snd x))) ?ys)"
    by (simp add: add.commute)
  have dist: "distinct (map (\<lambda>x. txHash (fst x)) ?xs)"
    by (simp add: txChild1_def txChild2_def)
  have nxt: "60000000000 \<le> nextExpireScan demoPool"
    by (simp add: demo_defs orphanExpireScanInterval_def)
  then have noscan: "\<forall>x\<in>set ?xs \<union> set ?ys. fst (snd (snd x)) \<le> nextExpireScan demoPool"
    by (simp add: demo_defs orphanExpireScanInterval_def)
  have fin: "finite (dom (orphans demoPool))" by (simp add: demo_defs)
  have room2: "int (card (dom (orphans demoPool))) + 2 \<le> MaxOrphanTxs (Policy (demoCfg 5))"
    by (simp add: demo_defs)
  then have room: "int (card (dom (orphans demoPool))) + int (length ?xs)
                     \<le> MaxOrphanTxs (Policy (demoCfg 5))"
    by simp
  note acc = demo_parent_accepted_12
  from C5_promotion_any_order [OF same dist noscan fin room,
      where fuel = 5 and ord = "[2, 3]" and E = "demoEnv 1000 0" and t = txParent
        and rateLimit = True and allowOrphan = True and fuel' = 5 and ord' = "[2, 3]"
        and now = 120000000000 and now' = 120000000000 and tg = 7]
  obtain sx sy where
    sx: "addOrphans 5 [2, 3] (demoCfg 5) ?xs demoPool = Some sx" and
    sy: "addOrphans 5 [2, 3] (demoCfg 5) ?ys demoPool = Some sy" and
    eq: "(True \<longrightarrow>
           (\<forall>ms. fst (maybeAcceptTransaction (demoCfg 5) (demoEnv 1000 0) txParent True True True
                         sx) \<noteq> MissingParents ms))
         \<longrightarrow> map_option fst
               (ProcessTransaction 5 [2, 3] (demoCfg 5) (demoEnv 1000 0) 120000000000
                  120000000000 txParent True True 7 sx)
             = map_option fst
               (ProcessTransaction 5 [2, 3] (demoCfg 5) (demoEnv 1000 0) 120000000000
                  120000000000 txParent True True 7 sy)"
    by blast
  from sx demo_add_12 have x: "sx = demoPool12" by (simp only: option.inject)
  from sy demo_add_21 have y: "sy = demoPool21" by (simp only: option.inject)
  from eq have "map_option fst
          (ProcessTransaction 5 [2, 3] (demoCfg 5) (demoEnv 1000 0) 120000000000 120000000000
             txParent True True 7 demoPool12)
        = map_option fst
          (ProcessTransaction 5 [2, 3] (demoCfg 5) (demoEnv 1000 0) 120000000000 120000000000
             txParent True True 7 demoPool21)"
    by (simp add: x y acc)
  with demo_promote_12 same dist nxt fin room2 demo_add_12 demo_add_21 acc
  show ?thesis by simp
qed

end
